theory Spec2Isabelle
  imports Main
begin

section \<open>Data model (job/job.go and the task file)\<close>

text \<open>
  Go's \<^verbatim>\<open>int\<close> is taken at 64 bits (the amd64 target): a value of the mathematical
  integers between \<open>- 2^63\<close> and \<open>2^63 - 1\<close>, with the wrap-around written out where
  the program adds.  Strings are byte lists.  The field names of the Go structs are
  kept, with a short prefix where two structs share a name.
\<close>

record JobParam =
  jpName :: string
  jpType :: string
  jpDefault :: string
  jpOnly :: "string list"
  jpMin :: string
  jpMax :: string
  jpStep :: string
  jpStepMode :: string

record Input =
  inName :: string
  inPath :: string

record Output =
  outName :: string
  outPath :: string

record Run =
  runName :: string
  runImage :: string
  runCores :: int
  runDevices :: "string list"
  runCmd :: string
  runPath :: string
  exitCode :: int

record TaskParam =
  tpName :: string
  tpType :: string
  tpValue :: string

text \<open>
  Modelled from the spec: the run queue (type \<^verbatim>\<open>Queue\<close>, absent from the sources) is
  the FIFO of section 4.2: \<^verbatim>\<open>Enqueue\<close> appends, \<^verbatim>\<open>Peak\<close> reads the head without removing
  it, \<^verbatim>\<open>Dequeue\<close> removes the head, \<^verbatim>\<open>Clear\<close> empties, \<^verbatim>\<open>Len\<close> counts.  The program never
  enqueues more than the capacity it asked for, so the bound is not modelled.
\<close>

type_synonym Queue = "Run list"

record Task =
  taskParams :: "TaskParam list"
  taskInputs :: "Input list"
  taskOutputs :: "Output list"
  runs :: Queue
  uuid :: string

datatype error =
    ErrSyntax string
  | ErrRange string
  | ErrMinGreaterMax string int int
  | ErrInvalidStep string string
  | ErrUnknownStepMode string string
  | ErrUnknownParamType string string
  | ErrTooManyCores string int nat
  | ErrEmptyPath
  | ErrNotExist string
  | ErrRead
  | ErrEmptyFile
  | ErrYaml
  | PanicIndexOutOfRange nat nat

section \<open>Go's strconv on 64-bit integers\<close>

definition INT_MAX :: int where
  "INT_MAX = 9223372036854775807"

definition INT_MIN :: int where
  "INT_MIN = - 9223372036854775808"

definition wrap64 :: "int \<Rightarrow> int" where
  "wrap64 x = (x + 9223372036854775808) mod 18446744073709551616 - 9223372036854775808"

definition is_digit :: "char \<Rightarrow> bool" where
  "is_digit c = (48 \<le> (of_char c :: nat) \<and> (of_char c :: nat) \<le> 57)"

fun parse_digits :: "string \<Rightarrow> nat \<Rightarrow> nat option" where
  "parse_digits [] n = Some n"
| "parse_digits (c # cs) n =
     (if is_digit c then parse_digits cs (n * 10 + ((of_char c :: nat) - 48)) else None)"

text \<open>
  \<^verbatim>\<open>strconv.Atoi\<close> (Go's standard library): an optional sign, then one or more decimal
  digits; a syntax error otherwise, a range error when the value does not fit the
  64-bit \<^verbatim>\<open>int\<close>.  For a string that is both malformed and too long the model reports
  the syntax error; the callers make no difference between the two.
\<close>

definition Atoi :: "string \<Rightarrow> error + int" where
  "Atoi s =
     (case s of
        [] \<Rightarrow> Inl (ErrSyntax s)
      | c # cs \<Rightarrow>
          (let body = (if c = CHR ''-'' \<or> c = CHR ''+'' then cs else s) in
           if body = [] then Inl (ErrSyntax s)
           else
             (case parse_digits body 0 of
                None \<Rightarrow> Inl (ErrSyntax s)
              | Some n \<Rightarrow>
                  if c = CHR ''-''
                  then (if 9223372036854775808 < n then Inl (ErrRange s) else Inr (- int n))
                  else (if 9223372036854775808 \<le> n then Inl (ErrRange s) else Inr (int n)))))"

definition digit_char :: "nat \<Rightarrow> char" where
  "digit_char d = ''0123456789'' ! d"

fun nat_digits :: "nat \<Rightarrow> string" where
  "nat_digits n =
     (if n < 10 then [digit_char n]
      else nat_digits (n div 10) @ [digit_char (n mod 10)])"

declare nat_digits.simps [simp del]

text \<open>\<^verbatim>\<open>strconv.Itoa\<close>: the decimal digits, after a minus sign for a negative value.\<close>

definition Itoa :: "int \<Rightarrow> string" where
  "Itoa i = (if i < 0 then CHR ''-'' # nat_digits (nat (- i)) else nat_digits (nat i))"

section \<open>The parameter expander (job/job.go)\<close>

definition mkParam :: "JobParam \<Rightarrow> string \<Rightarrow> TaskParam" where
  "mkParam param val = \<lparr>tpName = jpName param, tpType = jpType param, tpValue = val\<rparr>"

text \<open>\<^verbatim>\<open>parseParamStr\<close>: the values of \<^verbatim>\<open>only\<close>, else the default, else nothing.\<close>

definition parseParamStr :: "JobParam \<Rightarrow> error + TaskParam list" where
  "parseParamStr param =
     (if length (jpOnly param) > 0 then Inr (map (mkParam param) (jpOnly param))
      else if length (jpDefault param) > 0 then Inr [mkParam param (jpDefault param)]
      else Inr [])"

text \<open>
  The two range loops of \<^verbatim>\<open>parseParamInt\<close>.  Neither is bounded by the source, so each
  is a partial function: \<open>None\<close> is a loop that never leaves (the process appends
  until its memory is exhausted and returns nothing).

  \<^verbatim>\<open>for i := min; i <= max; i += step { params = append(params, ...) }\<close>
\<close>

partial_function (option) incr_loop ::
  "JobParam \<Rightarrow> int \<Rightarrow> int \<Rightarrow> int \<Rightarrow> TaskParam list \<Rightarrow> TaskParam list option" where
  "incr_loop param mx step i params =
     (if i \<le> mx
      then incr_loop param mx step (wrap64 (i + step)) (params @ [mkParam param (Itoa i)])
      else Some params)"

declare incr_loop.simps [code]

text \<open>
  \<^verbatim>\<open>for i := min; i <= max; math.Pow(float64(step), float64(i)) { ... }\<close>: the post
  statement is a call whose result is dropped; it has no effect and \<^verbatim>\<open>i\<close> keeps its
  value.
\<close>

partial_function (option) power_loop ::
  "JobParam \<Rightarrow> int \<Rightarrow> int \<Rightarrow> int \<Rightarrow> TaskParam list \<Rightarrow> TaskParam list option" where
  "power_loop param mx step i params =
     (if i \<le> mx
      then power_loop param mx step i (params @ [mkParam param (Itoa i)])
      else Some params)"

declare power_loop.simps [code]

definition parseStep :: "JobParam \<Rightarrow> error + int" where
  "parseStep param =
     (if length (jpStep param) > 0
      then (case Atoi (jpStep param) of
              Inl e \<Rightarrow> Inl (ErrInvalidStep (jpName param) (jpStep param))
            | Inr step \<Rightarrow>
                if step = 0 then Inl (ErrInvalidStep (jpName param) (jpStep param))
                else Inr step)
      else Inr 1)"

definition parseParamInt :: "JobParam \<Rightarrow> (error + TaskParam list) option" where
  "parseParamInt param =
     (if length (jpOnly param) > 0 then Some (Inr (map (mkParam param) (jpOnly param)))
      else if length (jpMin param) > 0 then
        (case Atoi (jpMin param) of
           Inl e \<Rightarrow> Some (Inl e)
         | Inr mn \<Rightarrow>
             (case Atoi (jpMax param) of
                Inl e \<Rightarrow> Some (Inl e)
              | Inr mx \<Rightarrow>
                  if mx < mn then Some (Inl (ErrMinGreaterMax (jpName param) mn mx))
                  else
                    (case parseStep param of
                       Inl e \<Rightarrow> Some (Inl e)
                     | Inr step \<Rightarrow>
                         if length (jpStepMode param) = 0 \<or> jpStepMode param = ''increment''
                         then map_option Inr (incr_loop param mx step mn [])
                         else if jpStepMode param = ''power''
                         then map_option Inr (power_loop param mx step mn [])
                         else Some (Inl (ErrUnknownStepMode (jpName param) (jpStepMode param))))))
      else if length (jpDefault param) > 0 then Some (Inr [mkParam param (jpDefault param)])
      else Some (Inr []))"

definition paramPermutations :: "JobParam \<Rightarrow> (error + TaskParam list) option" where
  "paramPermutations param =
     (if jpType param = ''string'' then Some (parseParamStr param)
      else if jpType param = ''int'' then parseParamInt param
      else if jpType param = ''integer'' then parseParamInt param
      else Some (Inl (ErrUnknownParamType (jpType param) (jpName param))))"

text \<open>
  Modelled from the spec: the wait list (type \<^verbatim>\<open>List\<close>, absent from the sources) is the
  ordered collection of section 4.3: \<^verbatim>\<open>Add\<close> appends, \<^verbatim>\<open>Get(i)\<close> reads position \<open>i\<close> and
  fails outside the list, \<^verbatim>\<open>Remove(i)\<close> shifts the later elements left by one, \<^verbatim>\<open>Len\<close>
  counts.  The job document and the runtime configuration are the structs of the
  source.
\<close>

record RuntimeConfig =
  Cpus :: "int list"
  ScheduleGrace :: int

record Job =
  jobParams :: "JobParam list"
  jobInputs :: "Input list"
  jobOutputs :: "Output list"
  jobRuns :: "Run list"
  waitList :: "Task list"
  scheduleGrace :: int

definition zeroTaskParam :: TaskParam where
  "zeroTaskParam = \<lparr>tpName = [], tpType = [], tpValue = []\<rparr>"

text \<open>
  \<^verbatim>\<open>p = make([]TaskParam, len(j.Params)); copy(p, curr)\<close>: a slice of \<open>n\<close> zero values
  whose front is overwritten with the elements of \<^verbatim>\<open>curr\<close>.
\<close>

definition copyParams :: "nat \<Rightarrow> TaskParam list \<Rightarrow> TaskParam list" where
  "copyParams n cur = take n cur @ replicate (n - length cur) zeroTaskParam"

definition newTask :: "Job \<Rightarrow> TaskParam list \<Rightarrow> Task" where
  "newTask j cur =
     \<lparr>taskParams = copyParams (length (jobParams j)) cur,
      taskInputs = jobInputs j, taskOutputs = jobOutputs j, runs = [], uuid = []\<rparr>"

text \<open>
  The head of the loop body of \<^verbatim>\<open>nextTask\<close>: the last element of \<^verbatim>\<open>curr\<close> is dropped
  when it carries the name of the new value, then the value is appended.
\<close>

definition replaceLast :: "TaskParam list \<Rightarrow> TaskParam \<Rightarrow> TaskParam list" where
  "replaceLast cur param =
     (if length cur > 0 \<and> tpName (last cur) = tpName param then butlast cur else cur)
     @ [param]"

text \<open>
  \<^verbatim>\<open>nextTask\<close> and its loop over the values of parameter \<open>i\<close>.  \<^verbatim>\<open>j.Params[i]\<close> panics
  when \<open>i\<close> is out of range.  The slice \<^verbatim>\<open>curr\<close> is a list value here: a callee writes
  into the caller's backing array only at the caller's last position and only an
  element of the same name, which the caller drops before it reads the slice again,
  so the sharing never shows in the tasks returned.
\<close>

function nextTask ::
    "Job \<Rightarrow> nat \<Rightarrow> Task list \<Rightarrow> TaskParam list \<Rightarrow> (error + Task list) option"
  and nextTask_loop ::
    "Job \<Rightarrow> nat \<Rightarrow> TaskParam list \<Rightarrow> Task list \<Rightarrow> TaskParam list
      \<Rightarrow> (error + Task list) option"
where
  "nextTask j i tasks cur =
     (if length (jobParams j) \<le> i
      then Some (Inl (PanicIndexOutOfRange i (length (jobParams j))))
      else
        (case paramPermutations (jobParams j ! i) of
           None \<Rightarrow> None
         | Some (Inl e) \<Rightarrow> Some (Inl e)
         | Some (Inr params) \<Rightarrow> nextTask_loop j i params tasks cur))"
| "nextTask_loop j i [] tasks cur = Some (Inr tasks)"
| "nextTask_loop j i (param # params) tasks cur =
     (if i + 1 = length (jobParams j)
      then nextTask_loop j i params
             (tasks @ [newTask j (replaceLast cur param)]) (replaceLast cur param)
      else
        (case nextTask j (i + 1) [] (replaceLast cur param) of
           None \<Rightarrow> None
         | Some (Inl e) \<Rightarrow> Some (Inl e)
         | Some (Inr nextTasks) \<Rightarrow>
             nextTask_loop j i params (tasks @ nextTasks) (replaceLast cur param)))"
  by pat_completeness auto
termination
  by (relation "measures
        [\<lambda>x. case x of
                Inl (j, i, tasks, cur) \<Rightarrow>
                  (if i < length (jobParams j) then 2 * (length (jobParams j) - i) + 1 else 0)
              | Inr (j, i, params, tasks, cur) \<Rightarrow>
                  (if i < length (jobParams j) then 2 * (length (jobParams j) - i) else 1),
         \<lambda>x. case x of Inl _ \<Rightarrow> 0 | Inr (j, i, params, tasks, cur) \<Rightarrow> length params]")
     auto

declare nextTask.simps [simp del]

text \<open>\<^verbatim>\<open>Job.tasks\<close>: every task of the job, from parameter 0 on.\<close>

definition tasks :: "Job \<Rightarrow> (error + Task list) option" where
  "tasks j = nextTask j 0 [] []"

section \<open>Task identity (the task file)\<close>

definition hexDigit :: "nat \<Rightarrow> char" where
  "hexDigit d = ''0123456789abcdef'' ! d"

text \<open>\<^verbatim>\<open>fmt.Sprintf("%x", bytes)\<close>: two lower-case hexadecimal digits for every byte.\<close>

definition hexString :: "string \<Rightarrow> string" where
  "hexString bs =
     concat (map (\<lambda>b. [hexDigit ((of_char b :: nat) div 16), hexDigit ((of_char b :: nat) mod 16)]) bs)"

text \<open>\<^verbatim>\<open>fmt.Sprintf("%s=%s\n", param.Name, param.Value)\<close>\<close>

definition paramLine :: "TaskParam \<Rightarrow> string" where
  "paramLine param = tpName param @ ''='' @ tpValue param @ [CHR 0x0A]"

text \<open>
  \<^verbatim>\<open>Task.UUID\<close>.  The hash is Go's \<^verbatim>\<open>crypto/md5\<close>, a function from bytes to bytes that
  the model takes as the parameter \<open>md5\<close>; the lines written to it one after the other
  are hashed as their concatenation.  The method stores the digest in the task, so it
  returns the task as well.
\<close>

definition UUID :: "(string \<Rightarrow> string) \<Rightarrow> Task \<Rightarrow> string \<times> Task" where
  "UUID md5 t =
     (if length (uuid t) = 0
      then (let u = hexString (md5 (concat (map paramLine (taskParams t))))
            in (u, t\<lparr>uuid := u\<rparr>))
      else (uuid t, t))"

text \<open>\<^verbatim>\<open>Task.Init\<close>: a fresh queue holding the job's runs in order.\<close>

definition Init :: "Task \<Rightarrow> Run list \<Rightarrow> Task" where
  "Init t rs = t\<lparr>runs := rs\<rparr>"

text \<open>\<^verbatim>\<open>Task.Cancel\<close>: \<^verbatim>\<open>t.runs.Clear()\<close>.\<close>

definition Cancel :: "Task \<Rightarrow> Task" where
  "Cancel t = t\<lparr>runs := []\<rparr>"

section \<open>The core map\<close>

record ActiveTaskRun =
  atrId :: nat
  atrTask :: nat
  atrRun :: Run
  CoreIds :: "int list"

text \<open>
  Modelled from the spec: the core map (type \<^verbatim>\<open>CoreMap\<close>, absent from the sources) is
  the mapping of section 4.4 from the configured core ids to the run that occupies
  the core, or to nothing.  \<^verbatim>\<open>FreeCores\<close> lists the vacant ids, \<^verbatim>\<open>All\<close> the entries,
  \<^verbatim>\<open>Set\<close> fails on an id that is not configured or is occupied, \<^verbatim>\<open>Unset\<close> vacates.
  The order of the ids is the order of the configuration.
\<close>

record CoreMap =
  cmIds :: "int list"
  cmAt :: "int \<Rightarrow> ActiveTaskRun option"

definition NewCoreMap :: "int list \<Rightarrow> CoreMap" where
  "NewCoreMap cpus = \<lparr>cmIds = remdups cpus, cmAt = (\<lambda>c. None)\<rparr>"

definition FreeCores :: "CoreMap \<Rightarrow> int list" where
  "FreeCores cm = filter (\<lambda>c. cmAt cm c = None) (cmIds cm)"

definition All :: "CoreMap \<Rightarrow> ActiveTaskRun option list" where
  "All cm = map (cmAt cm) (cmIds cm)"

definition Set_core :: "CoreMap \<Rightarrow> int \<Rightarrow> ActiveTaskRun \<Rightarrow> CoreMap option" where
  "Set_core cm c atr =
     (if c \<in> set (cmIds cm) \<and> cmAt cm c = None
      then Some (cm\<lparr>cmAt := (cmAt cm)(c \<mapsto> atr)\<rparr>)
      else None)"

definition Unset :: "CoreMap \<Rightarrow> int \<Rightarrow> CoreMap" where
  "Unset cm c = cm\<lparr>cmAt := (cmAt cm)(c := None)\<rparr>"

section \<open>Loading a job (\<^verbatim>\<open>NewJob\<close>, job/job.go)\<close>

text \<open>
  The loop over \<^verbatim>\<open>job.Runs\<close> inside the loop over the tasks: a run that asks for more
  cores than the pool has ends the load, a run with no cores is given one.
\<close>

function checkRuns :: "nat \<Rightarrow> nat \<Rightarrow> Run list \<Rightarrow> error + Run list" where
  "checkRuns ncpus i rs =
     (if i < length rs
      then
        (if int ncpus < runCores (rs ! i)
         then Inl (ErrTooManyCores (runName (rs ! i)) (runCores (rs ! i)) ncpus)
         else if runCores (rs ! i) = 0
         then checkRuns ncpus (i + 1) (rs[i := (rs ! i)\<lparr>runCores := 1\<rparr>])
         else checkRuns ncpus (i + 1) rs)
      else Inr rs)"
  by pat_completeness auto
termination
  by (relation "measure (\<lambda>(ncpus, i, rs). length rs - i)") auto

declare checkRuns.simps [simp del]

text \<open>
  The loop over the tasks: check the runs, initialise the task with them, add it to
  the wait list.
\<close>

fun tasksLoop :: "nat \<Rightarrow> Task list \<Rightarrow> Job \<Rightarrow> error + Job" where
  "tasksLoop ncpus [] job = Inr job"
| "tasksLoop ncpus (task # ts) job =
     (case checkRuns ncpus 0 (jobRuns job) of
        Inl e \<Rightarrow> Inl e
      | Inr rs \<Rightarrow>
          tasksLoop ncpus ts (job\<lparr>jobRuns := rs, waitList := waitList job @ [Init task rs]\<rparr>))"

text \<open>
  What \<^verbatim>\<open>NewJob\<close> does with the parsed document: expand the tasks, then run the loop
  above from an empty wait list, then build the core map \<^verbatim>\<open>tasksInFlight\<close>.
\<close>

definition loadJob :: "Job \<Rightarrow> RuntimeConfig \<Rightarrow> (error + Job \<times> CoreMap) option" where
  "loadJob job cfg =
     (case tasks job of
        None \<Rightarrow> None
      | Some (Inl e) \<Rightarrow> Some (Inl e)
      | Some (Inr ts) \<Rightarrow>
          (case tasksLoop (length (Cpus cfg)) ts
                  (job\<lparr>waitList := [], scheduleGrace := ScheduleGrace cfg\<rparr>) of
             Inl e \<Rightarrow> Some (Inl e)
           | Inr job' \<Rightarrow> Some (Inr (job', NewCoreMap (Cpus cfg)))))"

text \<open>
  The file system and the YAML parser are outside the program: \<open>fileExists\<close> is
  \<^verbatim>\<open>os.Stat\<close> not reporting a missing file, \<open>readFile\<close> is \<^verbatim>\<open>ioutil.ReadFile\<close>,
  \<open>unmarshal\<close> is \<^verbatim>\<open>yaml.Unmarshal\<close> into an empty \<^verbatim>\<open>Job\<close>.
\<close>

record Env =
  fileExists :: "string \<Rightarrow> bool"
  readFile :: "string \<Rightarrow> error + string"
  unmarshal :: "string \<Rightarrow> error + Job"

definition NewJob :: "Env \<Rightarrow> string \<Rightarrow> RuntimeConfig \<Rightarrow> (error + Job \<times> CoreMap) option" where
  "NewJob env filePath cfg =
     (if length filePath = 0 then Some (Inl ErrEmptyPath)
      else if \<not> fileExists env filePath then Some (Inl (ErrNotExist filePath))
      else
        (case readFile env filePath of
           Inl e \<Rightarrow> Some (Inl e)
         | Inr dat \<Rightarrow>
             if length dat = 0 then Some (Inl ErrEmptyFile)
             else
               (case unmarshal env dat of
                  Inl e \<Rightarrow> Some (Inl e)
                | Inr job \<Rightarrow> loadJob job cfg)))"

section \<open>The scheduler loop and the run supervisors (\<^verbatim>\<open>Job.Start\<close>, job/job.go)\<close>

text \<open>
  \<^verbatim>\<open>Job.Start\<close> is one driver and one goroutine per dispatched run, sharing the core
  map, the run queues of the tasks and the wait group.  The model is an interleaving
  of atomic steps, each holding one access to the shared state.  A \<^verbatim>\<open>*Task\<close> is an
  index into \<open>store\<close>, the tasks of the wait list as \<^verbatim>\<open>NewJob\<close> left them; an
  \<^verbatim>\<open>*ActiveTaskRun\<close> is told apart by the number \<open>atrId\<close> of its allocation.

  The positions of the driver, with the local variables that are live there:
\<close>

datatype Pc =
    LoopHead
  | Fetch "int list"
  | Exclusion "int list" nat Run
  | Select "int list" nat Run
  | SetCores ActiveTaskRun "int list" nat nat
  | Spawn ActiveTaskRun nat
  | Iterator nat
  | WaitGroup
  | Returned
  | Panicked

text \<open>The positions of a supervisor goroutine.\<close>

datatype SupPc =
    Running
  | Signal
  | Release "int list"
  | Finished

record Sup =
  supAtr :: ActiveTaskRun
  supTask :: nat
  supPc :: SupPc

record State =
  store :: "Task list"
  wl :: "nat list"
  cursor :: int
  coreMap :: CoreMap
  wg :: int
  pc :: Pc
  sups :: "Sup list"
  nextAtr :: nat
  schedLog :: "(nat \<times> string) list"

definition initState :: "Job \<Rightarrow> CoreMap \<Rightarrow> State" where
  "initState job cm =
     \<lparr>store = waitList job, wl = [0..<length (waitList job)], cursor = 0, coreMap = cm,
      wg = 0, pc = LoopHead, sups = [], nextAtr = 0, schedLog = []\<rparr>"

text \<open>\<^verbatim>\<open>t.UUID()\<close> on the task at index \<open>t\<close> of the store.\<close>

definition UUID_at :: "(string \<Rightarrow> string) \<Rightarrow> Task list \<Rightarrow> nat \<Rightarrow> string \<times> Task list" where
  "UUID_at md5 st t = (fst (UUID md5 (st ! t)), st[t := snd (UUID md5 (st ! t))])"

text \<open>
  The exclusion test: under the read lock, every entry of the core map that is not nil
  is compared with the task by uuid.
\<close>

fun exclusionScan ::
  "(string \<Rightarrow> string) \<Rightarrow> Task list \<Rightarrow> nat \<Rightarrow> ActiveTaskRun option list \<Rightarrow> bool \<times> Task list" where
  "exclusionScan md5 st t [] = (False, st)"
| "exclusionScan md5 st t (None # es) = exclusionScan md5 st t es"
| "exclusionScan md5 st t (Some atr # es) =
     (let (u1, st1) = UUID_at md5 st (atrTask atr);
          (u2, st2) = UUID_at md5 st1 t
      in if u1 = u2 then (True, st2) else exclusionScan md5 st2 t es)"

text \<open>
  The head of an iteration: the loop condition, then the snapshot of the free cores;
  with no free core the iteration starts again.
\<close>

definition stepLoopHead :: "State \<Rightarrow> State" where
  "stepLoopHead s =
     (if length (wl s) > 0
      then (let freeCores = FreeCores (coreMap s)
            in if length freeCores = 0 then s else s\<lparr>pc := Fetch freeCores\<rparr>)
      else s\<lparr>pc := WaitGroup\<rparr>)"

text \<open>
  \<^verbatim>\<open>waitList.Get(i)\<close>, which fails outside the list, then the peek at the task's queue
  and the comparison of the run's cores with the free cores.
\<close>

definition stepFetch :: "int list \<Rightarrow> State \<Rightarrow> State" where
  "stepFetch freeCores s =
     (if cursor s < 0 \<or> int (length (wl s)) \<le> cursor s
      then s\<lparr>cursor := 0, pc := LoopHead\<rparr>
      else
        (let task = wl s ! nat (cursor s) in
         case runs (store s ! task) of
           [] \<Rightarrow> s\<lparr>pc := Iterator task\<rparr>
         | nextRun # rest \<Rightarrow>
             if runCores nextRun \<le> int (length freeCores)
             then s\<lparr>pc := Exclusion freeCores task nextRun\<rparr>
             else s\<lparr>pc := Iterator task\<rparr>))"

definition stepExclusion ::
  "(string \<Rightarrow> string) \<Rightarrow> int list \<Rightarrow> nat \<Rightarrow> Run \<Rightarrow> State \<Rightarrow> State" where
  "stepExclusion md5 freeCores task nextRun s =
     (let (found, st) = exclusionScan md5 (store s) task (All (coreMap s))
      in if found then s\<lparr>store := st, pc := Iterator task\<rparr>
         else s\<lparr>store := st, pc := Select freeCores task nextRun\<rparr>)"

text \<open>
  Modelled from the spec: \<^verbatim>\<open>NewActiveTaskRun\<close> is absent from the sources; by section 3
  the run it returns holds the task, the stage and the cores it was given, and \<open>ok\<close>
  says whether it succeeds.  The rest is the source: the cores are taken from the tail
  of the snapshot, then the run is built.  On failure the task is cancelled; otherwise
  the dispatch is logged (which computes the uuid) and the stage leaves the queue.
\<close>

definition stepSelect :: "(string \<Rightarrow> string) \<Rightarrow> bool \<Rightarrow> int list \<Rightarrow> nat \<Rightarrow> Run \<Rightarrow> State \<Rightarrow> State" where
  "stepSelect md5 ok freeCores task nextRun s =
     (let cores = take (nat (runCores nextRun)) (rev freeCores) in
      if \<not> ok
      then s\<lparr>store := (store s)[task := Cancel (store s ! task)], pc := Iterator task\<rparr>
      else
        (let atr = \<lparr>atrId = nextAtr s, atrTask = task, atrRun = nextRun, CoreIds = cores\<rparr>;
             st1 = snd (UUID_at md5 (store s) task);
             st2 = st1[task := (st1 ! task)\<lparr>runs := tl (runs (st1 ! task))\<rparr>]
         in s\<lparr>store := st2, nextAtr := nextAtr s + 1,
              schedLog := schedLog s @ [(task, runName nextRun)],
              pc := SetCores atr cores 1 task\<rparr>))"

text \<open>
  One turn of the loop that enters the run into the core map, \<^verbatim>\<open>cores[len(cores)-j]\<close>
  being out of range when \<open>j\<close> exceeds the length.
\<close>

definition stepSetCores :: "ActiveTaskRun \<Rightarrow> int list \<Rightarrow> nat \<Rightarrow> nat \<Rightarrow> State \<Rightarrow> State" where
  "stepSetCores atr cores j task s =
     (if length cores = 0 then s\<lparr>pc := Spawn atr task\<rparr>
      else if length cores < j then s\<lparr>pc := Panicked\<rparr>
      else
        (case Set_core (coreMap s) (cores ! (length cores - j)) atr of
           None \<Rightarrow>
             s\<lparr>pc := SetCores atr cores (if length cores \<le> j then 1 else j + 1) task\<rparr>
         | Some cm \<Rightarrow>
             s\<lparr>coreMap := cm, pc := SetCores atr (take (length cores - j) cores) j task\<rparr>))"

text \<open>\<^verbatim>\<open>wg.Add(1)\<close> and the \<^verbatim>\<open>go\<close> statement.\<close>

definition stepSpawn :: "ActiveTaskRun \<Rightarrow> nat \<Rightarrow> State \<Rightarrow> State" where
  "stepSpawn atr task s =
     s\<lparr>wg := wg s + 1,
       sups := sups s @ [\<lparr>supAtr = atr, supTask = task, supPc = Running\<rparr>],
       pc := Iterator task\<rparr>"

text \<open>
  The label \<^verbatim>\<open>iterator\<close>: after the sleep, a task whose queue is empty leaves the wait
  list, then the cursor moves on or back to zero.
\<close>

definition stepIterator :: "nat \<Rightarrow> State \<Rightarrow> State" where
  "stepIterator task s =
     (let drained = (length (runs (store s ! task)) = 0);
          wl1 = (if drained
                 then take (nat (cursor s)) (wl s) @ drop (nat (cursor s) + 1) (wl s)
                 else wl s);
          i1 = (if drained then cursor s - 1 else cursor s)
      in s\<lparr>wl := wl1, cursor := (if int (length wl1) = i1 + 1 then 0 else i1 + 1),
           pc := LoopHead\<rparr>)"

text \<open>\<^verbatim>\<open>wg.Wait()\<close> returns once the counter is zero.\<close>

definition stepWaitGroup :: "State \<Rightarrow> State" where
  "stepWaitGroup s = (if wg s = 0 then s\<lparr>pc := Returned\<rparr> else s)"

definition driver :: "(string \<Rightarrow> string) \<Rightarrow> bool \<Rightarrow> State \<Rightarrow> State" where
  "driver md5 ok s =
     (case pc s of
        LoopHead \<Rightarrow> stepLoopHead s
      | Fetch freeCores \<Rightarrow> stepFetch freeCores s
      | Exclusion freeCores task nextRun \<Rightarrow> stepExclusion md5 freeCores task nextRun s
      | Select freeCores task nextRun \<Rightarrow> stepSelect md5 ok freeCores task nextRun s
      | SetCores atr cores j task \<Rightarrow> stepSetCores atr cores j task s
      | Spawn atr task \<Rightarrow> stepSpawn atr task s
      | Iterator task \<Rightarrow> stepIterator task s
      | WaitGroup \<Rightarrow> stepWaitGroup s
      | Returned \<Rightarrow> s
      | Panicked \<Rightarrow> s)"

text \<open>
  Modelled from the spec: \<^verbatim>\<open>activeTaskRun.Start\<close> is absent from the sources; by section 6
  it ends with an exit code and an error, which come with the step here.  The rest is
  the goroutine of the source, in its order: a failed run cancels its task; then
  \<^verbatim>\<open>wg.Done()\<close>; then the cores of the run are unset one by one.
\<close>

definition stepSup :: "nat \<Rightarrow> int \<Rightarrow> bool \<Rightarrow> State \<Rightarrow> State" where
  "stepSup k returnCode err s =
     (if length (sups s) \<le> k then s
      else
        (let g = sups s ! k; task = supTask g in
         case supPc g of
           Running \<Rightarrow>
             s\<lparr>store := (if err then (store s)[task := Cancel (store s ! task)]
                          else if returnCode \<noteq> 0 then (store s)[task := Cancel (store s ! task)]
                          else store s),
               sups := (sups s)[k := g\<lparr>supPc := Signal\<rparr>]\<rparr>
         | Signal \<Rightarrow>
             s\<lparr>wg := wg s - 1,
               sups := (sups s)[k := g\<lparr>supPc := Release (CoreIds (supAtr g))\<rparr>]\<rparr>
         | Release [] \<Rightarrow> s\<lparr>sups := (sups s)[k := g\<lparr>supPc := Finished\<rparr>]\<rparr>
         | Release (coreId # rest) \<Rightarrow>
             s\<lparr>coreMap := Unset (coreMap s) coreId,
               sups := (sups s)[k := g\<lparr>supPc := Release rest\<rparr>]\<rparr>
         | Finished \<Rightarrow> s))"

text \<open>
  A schedule is a list of actions: a step of the driver (with the outcome of
  \<^verbatim>\<open>NewActiveTaskRun\<close>, read at one position only) or a step of supervisor \<open>k\<close> (with the
  outcome of its run, read at its first step only).
\<close>

datatype action =
    Drive bool
  | Supervise nat int bool

fun perform :: "(string \<Rightarrow> string) \<Rightarrow> State \<Rightarrow> action \<Rightarrow> State" where
  "perform md5 s (Drive ok) = driver md5 ok s"
| "perform md5 s (Supervise k returnCode err) = stepSup k returnCode err s"

definition exec :: "(string \<Rightarrow> string) \<Rightarrow> action list \<Rightarrow> State \<Rightarrow> State" where
  "exec md5 acts s = foldl (perform md5) s acts"

section \<open>Notions used in the statements\<close>

text \<open>
  A declaration is invalid for the expander when its type is none of the three the
  switch knows, or when it is an integer range (no \<^verbatim>\<open>only\<close>, a \<^verbatim>\<open>min\<close>) whose bounds do
  not parse or are out of order, whose step is given and is not a non-zero integer, or
  whose step mode is unknown.
\<close>

definition decl_invalid :: "JobParam \<Rightarrow> bool" where
  "decl_invalid param =
     (if jpType param = ''string'' then False
      else if jpType param = ''int'' \<or> jpType param = ''integer'' then
        jpOnly param = [] \<and> jpMin param \<noteq> [] \<and>
        (case Atoi (jpMin param) of
           Inl e \<Rightarrow> True
         | Inr mn \<Rightarrow>
             (case Atoi (jpMax param) of
                Inl e \<Rightarrow> True
              | Inr mx \<Rightarrow>
                  mx < mn \<or>
                  (jpStep param \<noteq> [] \<and> (case Atoi (jpStep param) of Inl e \<Rightarrow> True | Inr st \<Rightarrow> st = 0)) \<or>
                  (jpStepMode param \<noteq> [] \<and> jpStepMode param \<noteq> ''increment'' \<and>
                   jpStepMode param \<noteq> ''power'')))
      else True)"

text \<open>The rewrite of a stage without cores, and a stage that fits a pool of \<open>n\<close> cores.\<close>

definition normCores :: "Run \<Rightarrow> Run" where
  "normCores r = (if runCores r = 0 then r\<lparr>runCores := 1\<rparr> else r)"

definition fitsPool :: "nat \<Rightarrow> Run \<Rightarrow> bool" where
  "fitsPool n r = (runCores r \<le> int n)"

text \<open>The file at the path exists, reads and parses to the job document.\<close>

definition parsed :: "Env \<Rightarrow> string \<Rightarrow> Job \<Rightarrow> bool" where
  "parsed env filePath job =
     (filePath \<noteq> [] \<and> fileExists env filePath \<and>
      (case readFile env filePath of
         Inl e \<Rightarrow> False
       | Inr dat \<Rightarrow> dat \<noteq> [] \<and> unmarshal env dat = Inr job))"

text \<open>
  Invariants of the core map: no entry belongs to task \<open>t\<close>; every entry of the task of
  \<open>atr\<close> is \<open>atr\<close>; two entries of one task are one run (I4 of the spec); every occupied
  id is configured (I1).  Between the exclusion test and the last \<^verbatim>\<open>Set\<close> the driver
  relies on the first two.
\<close>

definition noRunOf :: "nat \<Rightarrow> CoreMap \<Rightarrow> bool" where
  "noRunOf t cm = (\<forall>c a. cmAt cm c = Some a \<longrightarrow> atrTask a \<noteq> t)"

definition onlyRun :: "ActiveTaskRun \<Rightarrow> CoreMap \<Rightarrow> bool" where
  "onlyRun atr cm = (\<forall>c a. cmAt cm c = Some a \<longrightarrow> atrTask a = atrTask atr \<longrightarrow> a = atr)"

definition oneRunPerTask :: "CoreMap \<Rightarrow> bool" where
  "oneRunPerTask cm =
     (\<forall>c1 c2 a1 a2. cmAt cm c1 = Some a1 \<longrightarrow> cmAt cm c2 = Some a2 \<longrightarrow>
        atrTask a1 = atrTask a2 \<longrightarrow> a1 = a2)"

definition keysConfigured :: "CoreMap \<Rightarrow> bool" where
  "keysConfigured cm = (\<forall>c a. cmAt cm c = Some a \<longrightarrow> c \<in> set (cmIds cm))"

definition pcInv :: "Pc \<Rightarrow> CoreMap \<Rightarrow> bool" where
  "pcInv p cm =
     (case p of
        Select freeCores task nextRun \<Rightarrow> noRunOf task cm
      | SetCores atr cores j task \<Rightarrow> onlyRun atr cm
      | _ \<Rightarrow> True)"

definition Inv :: "State \<Rightarrow> bool" where
  "Inv s = (oneRunPerTask (coreMap s) \<and> keysConfigured (coreMap s) \<and> pcInv (pc s) (coreMap s))"

text \<open>
  The stored uuid of a task is consistent for the hash \<open>md5\<close>: still empty, or the
  digest of the parameters.
\<close>

definition cacheOk :: "(string \<Rightarrow> string) \<Rightarrow> Task \<Rightarrow> bool" where
  "cacheOk md5 t =
     (uuid t = [] \<or> uuid t = hexString (md5 (concat (map paramLine (taskParams t)))))"

text \<open>
  The state of a position of \<^verbatim>\<open>curr\<close> inside the loop of \<^verbatim>\<open>nextTask\<close>: the prefix \<open>pre\<close>
  handed down by the caller, alone or followed by the previous value of the parameter
  named \<open>nm\<close>.
\<close>

definition curOk :: "TaskParam list \<Rightarrow> string \<Rightarrow> TaskParam list \<Rightarrow> bool" where
  "curOk pre nm cur =
     ((pre = [] \<or> tpName (last pre) \<noteq> nm) \<and>
      (cur = pre \<or> (\<exists>x. cur = pre @ [x] \<and> tpName x = nm)))"

section \<open>Concrete inputs\<close>

definition onlyDecl :: "string \<Rightarrow> string \<Rightarrow> string list \<Rightarrow> JobParam" where
  "onlyDecl nm ty vs =
     \<lparr>jpName = nm, jpType = ty, jpDefault = [], jpOnly = vs, jpMin = [], jpMax = [],
      jpStep = [], jpStepMode = []\<rparr>"

definition rangeDecl :: "string \<Rightarrow> string \<Rightarrow> string \<Rightarrow> string \<Rightarrow> string \<Rightarrow> JobParam" where
  "rangeDecl nm mn mx st mode =
     \<lparr>jpName = nm, jpType = ''integer'', jpDefault = [], jpOnly = [], jpMin = mn, jpMax = mx,
      jpStep = st, jpStepMode = mode\<rparr>"

definition stage :: "string \<Rightarrow> int \<Rightarrow> Run" where
  "stage nm cores =
     \<lparr>runName = nm, runImage = [], runCores = cores, runDevices = [], runCmd = [],
      runPath = [], exitCode = 0\<rparr>"

definition jobOf :: "JobParam list \<Rightarrow> Run list \<Rightarrow> Job" where
  "jobOf params rs =
     \<lparr>jobParams = params, jobInputs = [], jobOutputs = [], jobRuns = rs, waitList = [],
      scheduleGrace = 0\<rparr>"

definition pool :: "int list \<Rightarrow> RuntimeConfig" where
  "pool cpus = \<lparr>Cpus = cpus, ScheduleGrace = 0\<rparr>"

definition taskOf :: "TaskParam list \<Rightarrow> Run list \<Rightarrow> Task" where
  "taskOf ps rs = \<lparr>taskParams = ps, taskInputs = [], taskOutputs = [], runs = rs, uuid = []\<rparr>"

definition tparam :: "string \<Rightarrow> string \<Rightarrow> string \<Rightarrow> TaskParam" where
  "tparam nm ty v = \<lparr>tpName = nm, tpType = ty, tpValue = v\<rparr>"

text \<open>
  A document with one task and two stages of one core each, as the load leaves it, and a
  schedule for it on a pool of two cores: the driver dispatches stage \<open>A\<close> and comes back
  to the task, peeks stage \<open>B\<close>; the supervisor of \<open>A\<close> sees exit code 1 and runs to its
  end; the driver goes on from its peek.
\<close>

definition twoStageDoc :: Job where
  "twoStageDoc = jobOf [onlyDecl ''x'' ''string'' [''a'']] [stage ''A'' 1, stage ''B'' 1]"

definition twoStageJob :: Job where
  "twoStageJob =
     twoStageDoc\<lparr>waitList := [taskOf [tparam ''x'' ''string'' ''a''] [stage ''A'' 1, stage ''B'' 1]]\<rparr>"

definition raceSchedule :: "action list" where
  "raceSchedule =
     [Drive True, Drive True, Drive True, Drive True, Drive True,
      Drive True, Drive True, Drive True, Drive True, Drive True,
      Supervise 0 1 False, Supervise 0 1 False, Supervise 0 1 False,
      Drive True, Drive True, Drive True, Drive True, Drive True]"

text \<open>
  A document with one task and one stage, as the load leaves it, and a schedule for it
  on a pool of one core: the driver dispatches the stage, drops the drained task and
  waits for the wait group; the supervisor sees exit code 0 and signals; the driver
  returns.
\<close>

definition oneStageJob :: Job where
  "oneStageJob =
     (jobOf [onlyDecl ''x'' ''string'' [''a'']] [stage ''A'' 1])
       \<lparr>waitList := [taskOf [tparam ''x'' ''string'' ''a''] [stage ''A'' 1]]\<rparr>"

definition earlySignalSchedule :: "action list" where
  "earlySignalSchedule =
     [Drive True, Drive True, Drive True, Drive True, Drive True,
      Drive True, Drive True, Drive True, Drive True,
      Supervise 0 0 False, Supervise 0 0 False, Drive True]"

section \<open>Integers and strings\<close>

lemma Atoi_range: "Atoi s = Inr v \<Longrightarrow> INT_MIN \<le> v \<and> v \<le> INT_MAX"
  by (auto simp: Atoi_def INT_MIN_def INT_MAX_def Let_def
      split: list.splits option.splits if_splits)

lemma wrap64_le: "wrap64 x \<le> INT_MAX"
  unfolding wrap64_def INT_MAX_def
  using pos_mod_bound[of 18446744073709551616 "x + 9223372036854775808"] by linarith

lemma wrap64_id: "INT_MIN \<le> x \<Longrightarrow> x \<le> INT_MAX \<Longrightarrow> wrap64 x = x"
  unfolding wrap64_def INT_MAX_def INT_MIN_def by (simp add: mod_pos_pos_trivial)

lemmas eval_strconv = Atoi_def is_digit_def Itoa_def nat_digits.simps digit_char_def

lemmas eval_decl = onlyDecl_def rangeDecl_def mkParam_def tparam_def

section \<open>The range loops\<close>

text \<open>The loop of the power mode returns only when it is never entered.\<close>

lemma power_loop_Some:
  assumes "power_loop param mx st i params = Some r"
  shows "\<not> i \<le> mx"
  by (rule power_loop.raw_induct[OF _ assms,
        where P = "\<lambda>param mx st i params r. \<not> i \<le> mx"])
     (simp split: if_splits)

lemma power_loop_diverges: "i \<le> mx \<Longrightarrow> power_loop param mx st i params = None"
  using power_loop_Some[of param mx st i params]
  by (cases "power_loop param mx st i params") auto

text \<open>With the largest integer as bound the increment loop is never left.\<close>

lemma incr_loop_Some:
  assumes "incr_loop param mx st i params = Some r"
  shows "\<not> (i \<le> INT_MAX \<and> mx = INT_MAX)"
  by (rule incr_loop.raw_induct[OF _ assms,
        where P = "\<lambda>param mx st i params r. \<not> (i \<le> INT_MAX \<and> mx = INT_MAX)"])
     (simp add: wrap64_le split: if_splits)

lemma incr_loop_diverges: "i \<le> INT_MAX \<Longrightarrow> incr_loop param INT_MAX st i params = None"
  using incr_loop_Some[of param INT_MAX st i params]
  by (cases "incr_loop param INT_MAX st i params") auto

text \<open>
  Without wrap-around the increment loop appends the \<open>n\<close> terms of the progression that
  are at most \<open>mx\<close>.
\<close>

lemma incr_loop_steps:
  "0 < st \<Longrightarrow> INT_MIN \<le> i \<Longrightarrow> (\<forall>k<n. i + int k * st \<le> mx) \<Longrightarrow> mx < i + int n * st
    \<Longrightarrow> i + int n * st \<le> INT_MAX
    \<Longrightarrow> incr_loop param mx st i params =
        Some (params @ map (\<lambda>k. mkParam param (Itoa (i + int k * st))) [0..<n])"
proof (induction n arbitrary: i params)
  case 0
  then show ?case by (subst incr_loop.simps) simp
next
  case (Suc n)
  from Suc.prems(3) have le: "i \<le> mx" by force
  have bound: "i + st \<le> i + int (Suc n) * st"
    using Suc.prems(1) by (simp add: algebra_simps)
  have w: "wrap64 (i + st) = i + st"
    using Suc.prems bound by (intro wrap64_id) linarith+
  have a: "\<forall>k<n. (i + st) + int k * st \<le> mx"
  proof (intro allI impI)
    fix k assume "k < n"
    then have "i + int (Suc k) * st \<le> mx" using Suc.prems(3) by blast
    then show "(i + st) + int k * st \<le> mx" by (simp add: algebra_simps)
  qed
  have b: "mx < (i + st) + int n * st" "(i + st) + int n * st \<le> INT_MAX"
    using Suc.prems(4,5) by (simp_all add: algebra_simps)
  have c: "INT_MIN \<le> i + st" using Suc.prems(1,2) by linarith
  have ih: "incr_loop param mx st (i + st) (params @ [mkParam param (Itoa i)]) =
     Some ((params @ [mkParam param (Itoa i)]) @
        map (\<lambda>k. mkParam param (Itoa ((i + st) + int k * st))) [0..<n])"
    by (rule Suc.IH[OF Suc.prems(1) c a b])
  have m: "map (\<lambda>k. mkParam param (Itoa (i + int k * st))) [0..<Suc n] =
     mkParam param (Itoa i) # map (\<lambda>k. mkParam param (Itoa ((i + st) + int k * st))) [0..<n]"
    by (simp only: upt_conv_Cons[of 0 "Suc n"] map_Suc_upt[symmetric] list.map map_map o_def)
       (simp add: algebra_simps)
  show ?case
    by (subst incr_loop.simps) (simp only: le if_True w ih m append_assoc append.simps)
qed

text \<open>Every value of a loop carries the name and the type of its declaration.\<close>

lemma incr_loop_names:
  assumes "incr_loop param mx st i params = Some r"
  shows "list_all (\<lambda>v. tpName v = jpName param \<and> tpType v = jpType param) params
     \<longrightarrow> list_all (\<lambda>v. tpName v = jpName param \<and> tpType v = jpType param) r"
  by (rule incr_loop.raw_induct[OF _ assms, where P = "\<lambda>param mx st i params r.
        list_all (\<lambda>v. tpName v = jpName param \<and> tpType v = jpType param) params
     \<longrightarrow> list_all (\<lambda>v. tpName v = jpName param \<and> tpType v = jpType param) r"])
     (auto simp: mkParam_def split: if_splits)

section \<open>One declaration\<close>

lemma power_mode_diverges:
  assumes "jpOnly param = []" "jpMin param \<noteq> []"
    "Atoi (jpMin param) = Inr mn" "Atoi (jpMax param) = Inr mx" "mn \<le> mx"
    "parseStep param = Inr st" "jpStepMode param = ''power''"
  shows "parseParamInt param = None"
  using assms by (simp add: parseParamInt_def power_loop_diverges)

lemma parseStep_valid:
  "(jpStep param = [] \<and> st = 1) \<or> (Atoi (jpStep param) = Inr st \<and> st \<noteq> 0)
   \<Longrightarrow> parseStep param = Inr st"
  by (auto simp: parseStep_def Atoi_def)

lemma paramPermutations_names:
  assumes "paramPermutations param = Some (Inr vs)"
  shows "list_all (\<lambda>v. tpName v = jpName param \<and> tpType v = jpType param) vs"
proof -
  have i: "parseParamInt param = Some (Inr vs) \<Longrightarrow> ?thesis"
    using incr_loop_names[of param _ _ _ "[]" vs]
    by (auto simp: parseParamInt_def mkParam_def list_all_iff power_loop_diverges
        split: if_splits sum.splits)
  show ?thesis using assms i
    by (auto simp: paramPermutations_def parseParamStr_def mkParam_def list_all_iff
        split: if_splits)
qed

lemma paramPermutations_error_iff:
  "(\<exists>e. paramPermutations param = Some (Inl e)) \<longleftrightarrow> decl_invalid param"
  by (auto simp: paramPermutations_def parseParamStr_def parseParamInt_def decl_invalid_def
      parseStep_def split: sum.splits if_splits)

lemma progression_length:
  assumes "0 < st" "mn \<le> mx"
  shows "\<exists>n. (\<forall>k<n. mn + int k * st \<le> mx) \<and> mx < mn + int n * st"
proof -
  let ?q = "(mx - mn) div st"
  have q0: "0 \<le> ?q" using assms by (simp add: pos_imp_zdiv_nonneg_iff)
  have e: "st * ?q + (mx - mn) mod st = mx - mn" by (rule mult_div_mod_eq)
  have m0: "0 \<le> (mx - mn) mod st" and m1: "(mx - mn) mod st < st"
    using assms(1) by simp_all
  have lo: "st * ?q \<le> mx - mn" using e m0 by linarith
  have hi: "mx - mn < st * ?q + st" using e m1 by linarith
  have a: "\<forall>k<nat ?q + 1. mn + int k * st \<le> mx"
  proof (intro allI impI)
    fix k assume "k < nat ?q + 1"
    then have "int k \<le> ?q" using q0 by linarith
    then have "int k * st \<le> ?q * st" using assms(1) by (simp add: mult_right_mono)
    then show "mn + int k * st \<le> mx" using lo by (simp add: mult.commute)
  qed
  have b: "mx < mn + int (nat ?q + 1) * st"
    using hi q0 by (simp add: algebra_simps)
  from a b show ?thesis by blast
qed

section \<open>The claims on one integer declaration\<close>

text \<open>
  C5.  The claim: in power mode the expansion is the geometric progression
  \<open>min, min * step, min * step^2, ...\<close> up to \<open>max\<close>.  The code does not compute it: for
  \<open>min = 1\<close>, \<open>max = 4\<close>, \<open>step = 2\<close> the claim asks for the values 1, 2, 4, and the loop of
  the source, whose post statement drops the power it computes, never ends and the
  expansion returns nothing.
\<close>

theorem power_mode_no_progression:
  "paramPermutations (rangeDecl ''x'' ''1'' ''4'' ''2'' ''power'') = None"
proof -
  have "parseParamInt (rangeDecl ''x'' ''1'' ''4'' ''2'' ''power'') = None"
    by (rule power_mode_diverges[where mn = 1 and mx = 4 and st = 2])
       (simp_all add: rangeDecl_def parseStep_def eval_strconv)
  then show ?thesis by (simp add: paramPermutations_def rangeDecl_def)
qed

text \<open>
  C6, as stated: in power mode the loop of the source ends and returns
  \<open>min, min + 1, ..., max\<close>, as increment mode with step 1 does.  It does not: for
  \<open>min = 1\<close> and \<open>max = 2\<close> increment mode returns the values 1 and 2 and power mode
  returns nothing.
\<close>

theorem power_mode_not_increment:
  "paramPermutations (rangeDecl ''n'' ''1'' ''2'' ''1'' ''increment'') =
     Some (Inr [tparam ''n'' ''integer'' ''1'', tparam ''n'' ''integer'' ''2''])
   \<and> paramPermutations (rangeDecl ''n'' ''1'' ''2'' ''1'' ''power'') = None"
proof -
  have p: "parseParamInt (rangeDecl ''n'' ''1'' ''2'' ''1'' ''power'') = None"
    by (rule power_mode_diverges[where mn = 1 and mx = 2 and st = 1])
       (simp_all add: rangeDecl_def parseStep_def eval_strconv)
  have l: "incr_loop (rangeDecl ''n'' ''1'' ''2'' ''1'' ''increment'') 2 1 1 [] =
      Some ([] @ map (\<lambda>k. mkParam (rangeDecl ''n'' ''1'' ''2'' ''1'' ''increment'')
                 (Itoa (1 + int k * 1))) [0..<2])"
    by (rule incr_loop_steps) (simp_all add: INT_MIN_def INT_MAX_def less_Suc_eq numeral_2_eq_2)
  have i: "parseParamInt (rangeDecl ''n'' ''1'' ''2'' ''1'' ''increment'') =
      Some (Inr [tparam ''n'' ''integer'' ''1'', tparam ''n'' ''integer'' ''2''])"
    using l by (simp add: parseParamInt_def parseStep_def eval_decl eval_strconv upt_conv_Cons)
  from p i show ?thesis by (simp add: paramPermutations_def rangeDecl_def)
qed

text \<open>
  C6, amended: for every integer declaration in power mode with bounds that parse,
  \<open>min \<le> max\<close> and a valid step, the loop of the source never ends: the loop variable
  keeps the value \<open>min\<close>, and the expansion of the declaration returns nothing.
\<close>

theorem power_mode_never_returns:
  assumes "jpType param = ''int'' \<or> jpType param = ''integer''"
    and "jpOnly param = []" and "jpMin param \<noteq> []"
    and "Atoi (jpMin param) = Inr mn" and "Atoi (jpMax param) = Inr mx" and "mn \<le> mx"
    and "(jpStep param = [] \<and> st = 1) \<or> (Atoi (jpStep param) = Inr st \<and> st \<noteq> 0)"
    and "jpStepMode param = ''power''"
  shows "power_loop param mx st mn [] = None \<and> paramPermutations param = None"
proof -
  have "parseParamInt param = None"
    by (rule power_mode_diverges[OF assms(2-6) parseStep_valid[OF assms(7)] assms(8)])
  then show ?thesis
    using assms(1,6) by (auto simp: paramPermutations_def power_loop_diverges)
qed

theorem power_mode_never_returns_witness:
  "power_loop (rangeDecl ''n'' ''3'' ''3'' ''5'' ''power'') 3 5 3 [] = None
   \<and> paramPermutations (rangeDecl ''n'' ''3'' ''3'' ''5'' ''power'') = None"
  using power_mode_never_returns[of "rangeDecl ''n'' ''3'' ''3'' ''5'' ''power''" 3 3 5]
  by (simp add: rangeDecl_def eval_strconv)

text \<open>
  C7, as stated: in increment mode, with \<open>min \<le> max\<close> and a step that is not zero, the
  expansion is \<open>min, min + step, ...\<close> up to \<open>max\<close>.  With \<open>min = max = 2^63 - 1\<close> and the
  default step the claim asks for this one value; the sum \<open>i + 1\<close> wraps around to
  \<open>- 2^63\<close>, the condition \<open>i \<le> max\<close> holds for every \<open>i\<close>, and the expansion returns
  nothing.  With \<open>min = max = 0\<close> and step \<open>-1\<close> no term of the progression exceeds
  \<open>max\<close>, so no list is the progression up to \<open>max\<close>.
\<close>

theorem increment_wraps_around:
  "paramPermutations (rangeDecl ''x'' ''9223372036854775807'' ''9223372036854775807'' [] []) = None
   \<and> \<not> (\<exists>n. paramPermutations (rangeDecl ''x'' ''0'' ''0'' ''-1'' []) =
            Some (Inr (map (\<lambda>k. tparam ''x'' ''integer'' (Itoa (0 + int k * (- 1)))) [0..<n]))
          \<and> 0 < 0 + int n * (- 1))"
proof -
  have "incr_loop (rangeDecl ''x'' ''9223372036854775807'' ''9223372036854775807'' [] [])
          INT_MAX 1 INT_MAX [] = None"
    by (rule incr_loop_diverges) simp
  then have "parseParamInt (rangeDecl ''x'' ''9223372036854775807'' ''9223372036854775807'' [] [])
      = None"
    by (simp add: parseParamInt_def parseStep_def rangeDecl_def eval_strconv INT_MAX_def)
  then show ?thesis by (simp add: paramPermutations_def rangeDecl_def)
qed

text \<open>
  C7, amended: in increment mode (step mode absent or \<open>increment\<close>), with bounds that
  parse, \<open>min \<le> max\<close>, a step \<open>st > 0\<close> (1 when absent), and \<open>n\<close> the number of terms
  \<open>min + k * st\<close> that are at most \<open>max\<close>, if the first term above \<open>max\<close>, which is
  \<open>min + n * st\<close>, is at most \<open>2^63 - 1\<close>, then the expansion is exactly these \<open>n\<close> terms in
  order, each with the name and the type of the declaration and the decimal string of
  the term as value.  (Such an \<open>n\<close> exists: lemma \<open>progression_length\<close>.)
\<close>

theorem increment_range_values:
  assumes "jpType param = ''int'' \<or> jpType param = ''integer''"
    and "jpOnly param = []" and "jpMin param \<noteq> []"
    and "Atoi (jpMin param) = Inr mn" and "Atoi (jpMax param) = Inr mx" and "mn \<le> mx"
    and "(jpStep param = [] \<and> st = 1) \<or> Atoi (jpStep param) = Inr st" and "0 < st"
    and "jpStepMode param = [] \<or> jpStepMode param = ''increment''"
    and "\<forall>k<n. mn + int k * st \<le> mx" and "mx < mn + int n * st"
    and "mn + int n * st \<le> INT_MAX"
  shows "paramPermutations param =
     Some (Inr (map (\<lambda>k. \<lparr>tpName = jpName param, tpType = jpType param,
                          tpValue = Itoa (mn + int k * st)\<rparr>) [0..<n]))"
proof -
  have mn: "INT_MIN \<le> mn" using Atoi_range[OF assms(4)] by simp
  have st: "parseStep param = Inr st"
    using assms(7,8) by (intro parseStep_valid) auto
  have "incr_loop param mx st mn [] =
    Some ([] @ map (\<lambda>k. mkParam param (Itoa (mn + int k * st))) [0..<n])"
    by (rule incr_loop_steps[OF assms(8) mn assms(10,11,12)])
  then have "parseParamInt param =
     Some (Inr (map (\<lambda>k. mkParam param (Itoa (mn + int k * st))) [0..<n]))"
    using assms(2-6,9) st by (auto simp: parseParamInt_def)
  then show ?thesis
    using assms(1) by (auto simp: paramPermutations_def mkParam_def)
qed

theorem increment_range_values_witness:
  "paramPermutations (rangeDecl ''x'' ''0'' ''4'' ''2'' []) =
     Some (Inr [tparam ''x'' ''integer'' ''0'', tparam ''x'' ''integer'' ''2'',
                tparam ''x'' ''integer'' ''4''])"
  using increment_range_values[of "rangeDecl ''x'' ''0'' ''4'' ''2'' []" 0 4 2 3]
  by (simp add: eval_decl eval_strconv INT_MAX_def upt_conv_Cons less_Suc_eq numeral_3_eq_3
      all_conj_distrib)

section \<open>The recursion over the declarations\<close>

lemma replaceLast_curOk:
  "curOk pre nm cur \<Longrightarrow> tpName v = nm \<Longrightarrow> replaceLast cur v = pre @ [v]"
  by (auto simp: curOk_def replaceLast_def)

lemma curOk_next: "curOk pre nm cur \<Longrightarrow> tpName v = nm \<Longrightarrow> curOk pre nm (pre @ [v])"
  by (auto simp: curOk_def)

text \<open>The loop at the last declaration makes one task per value.\<close>

lemma nextTask_loop_leaf:
  "i + 1 = length (jobParams j) \<Longrightarrow> curOk pre nm cur \<Longrightarrow> list_all (\<lambda>v. tpName v = nm) params
   \<Longrightarrow> nextTask_loop j i params ts cur =
        Some (Inr (ts @ map (\<lambda>v. newTask j (pre @ [v])) params))"
proof (induction params arbitrary: ts cur)
  case Nil
  then show ?case by simp
next
  case (Cons v params)
  then show ?case
    using replaceLast_curOk[of pre nm cur v] curOk_next[of pre nm cur v] by simp
qed

text \<open>The loop at an earlier declaration appends what the next level returns.\<close>

lemma nextTask_loop_inner:
  "i + 1 \<noteq> length (jobParams j) \<Longrightarrow> curOk pre nm cur \<Longrightarrow> list_all (\<lambda>v. tpName v = nm) params
   \<Longrightarrow> list_all (\<lambda>v. nextTask j (i + 1) [] (pre @ [v]) = Some (Inr (F v))) params
   \<Longrightarrow> nextTask_loop j i params ts cur = Some (Inr (ts @ concat (map F params)))"
proof (induction params arbitrary: ts cur)
  case Nil
  then show ?case by simp
next
  case (Cons v params)
  then show ?case
    using replaceLast_curOk[of pre nm cur v] curOk_next[of pre nm cur v] by simp
qed

lemma nextTask_product:
  assumes ok: "map paramPermutations (jobParams j) = map (\<lambda>vs. Some (Inr vs)) vals"
    and adj: "distinct_adj (map jpName (jobParams j))"
  shows "i < length (jobParams j) \<Longrightarrow> length pre = i
    \<Longrightarrow> (i = 0 \<or> tpName (last pre) = jpName (jobParams j ! (i - 1)))
    \<Longrightarrow> nextTask j i ts pre =
        Some (Inr (ts @ map (\<lambda>a. newTask j (pre @ a)) (product_lists (drop i vals))))"
proof (induction "length (jobParams j) - i" arbitrary: i pre ts)
  case 0
  then show ?case by simp
next
  case (Suc d)
  let ?ps = "jobParams j"
  have len: "length vals = length ?ps" using ok by (metis length_map)
  have pi: "paramPermutations (?ps ! i) = Some (Inr (vals ! i))"
    using ok Suc.prems(1) len by (metis nth_map)
  have names: "list_all (\<lambda>v. tpName v = jpName (?ps ! i)) (vals ! i)"
    using paramPermutations_names[OF pi] by (simp add: list_all_iff)
  have ne: "i = 0 \<or> jpName (?ps ! (i - 1)) \<noteq> jpName (?ps ! i)"
  proof (cases i)
    case 0
    then show ?thesis by simp
  next
    case (Suc m)
    then have "m < length ?ps - 1" using Suc.prems(1) by simp
    then show ?thesis using adj Suc Suc.prems(1)
      by (auto simp: distinct_adj_conv_nth)
  qed
  have cur: "curOk pre (jpName (?ps ! i)) pre"
    using Suc.prems(2,3) ne by (auto simp: curOk_def)
  have dr: "drop i vals = vals ! i # drop (Suc i) vals"
    using Suc.prems(1) len by (simp add: Cons_nth_drop_Suc)
  show ?case
  proof (cases "i + 1 = length ?ps")
    case True
    then have "drop (Suc i) vals = []" using len by simp
    then show ?thesis
      using nextTask_loop_leaf[OF True cur names, of ts] pi Suc.prems(1) dr
      by (simp add: nextTask.simps o_def)
  next
    case False
    have deeper: "list_all (\<lambda>v. nextTask j (i + 1) [] (pre @ [v]) =
        Some (Inr (map (\<lambda>a. newTask j (pre @ v # a)) (product_lists (drop (i + 1) vals)))))
        (vals ! i)"
      unfolding list_all_iff
    proof
      fix v assume v: "v \<in> set (vals ! i)"
      have d: "d = length ?ps - (i + 1)" using Suc.hyps(2) by simp
      have l: "i + 1 < length ?ps" using False Suc.prems(1) by simp
      have n: "tpName v = jpName (?ps ! i)" using names v by (simp add: list_all_iff)
      have "nextTask j (i + 1) [] (pre @ [v]) =
        Some (Inr ([] @ map (\<lambda>a. newTask j ((pre @ [v]) @ a))
                        (product_lists (drop (i + 1) vals))))"
        by (rule Suc.hyps(1)[OF d l]) (use Suc.prems(2) n in auto)
      then show "nextTask j (i + 1) [] (pre @ [v]) =
        Some (Inr (map (\<lambda>a. newTask j (pre @ v # a)) (product_lists (drop (i + 1) vals))))"
        by simp
    qed
    show ?thesis
      using nextTask_loop_inner[OF False cur names deeper, of ts] pi Suc.prems(1) dr
      by (simp add: nextTask.simps o_def map_concat)
  qed
qed

text \<open>An assignment of the product has one value of every declaration, in order.\<close>

lemma product_assignment:
  assumes ok: "map paramPermutations ps = map (\<lambda>vs. Some (Inr vs)) vals"
    and a: "a \<in> set (product_lists vals)"
  shows "length a = length ps \<and> map tpName a = map jpName ps \<and> map tpType a = map jpType ps"
proof -
  have len: "length vals = length ps" using ok by (metis length_map)
  have la: "length a = length vals" using a by (rule in_set_product_lists_length)
  have mem: "list_all2 (\<lambda>x ys. x \<in> set ys) a vals"
    using a by (simp add: product_lists_set)
  have each: "\<And>k. k < length ps \<Longrightarrow>
      tpName (a ! k) = jpName (ps ! k) \<and> tpType (a ! k) = jpType (ps ! k)"
  proof -
    fix k assume k: "k < length ps"
    have "paramPermutations (ps ! k) = Some (Inr (vals ! k))"
      using ok k len by (metis nth_map)
    moreover have "a ! k \<in> set (vals ! k)"
      using mem k len by (simp add: list_all2_conv_all_nth)
    ultimately show "tpName (a ! k) = jpName (ps ! k) \<and> tpType (a ! k) = jpType (ps ! k)"
      using paramPermutations_names by (fastforce simp: list_all_iff)
  qed
  show ?thesis
    using la len each by (auto intro!: nth_equalityI)
qed

lemma copyParams_full: "length a = n \<Longrightarrow> copyParams n a = a"
  by (simp add: copyParams_def)

lemmas eval_tasks = tasks_def nextTask.simps paramPermutations_def parseParamStr_def
  parseParamInt_def replaceLast_def newTask_def copyParams_def zeroTaskParam_def jobOf_def
  taskOf_def

text \<open>An error of the loop is an error of the next level, called for some value.\<close>

lemma nextTask_loop_error:
  "nextTask_loop j i params ts cur = Some (Inl e)
   \<Longrightarrow> i + 1 \<noteq> length (jobParams j) \<and> (\<exists>c. nextTask j (i + 1) [] c = Some (Inl e))"
proof (induction params arbitrary: ts cur)
  case Nil
  then show ?case by simp
next
  case (Cons v params)
  then show ?case
    by (auto split: if_splits option.splits sum.splits)
qed

lemma nextTask_error_reached:
  "i < length (jobParams j) \<Longrightarrow> nextTask j i ts cur = Some (Inl e)
   \<Longrightarrow> \<exists>k. i \<le> k \<and> k < length (jobParams j) \<and>
          paramPermutations (jobParams j ! k) = Some (Inl e) \<and>
          (\<forall>m. i \<le> m \<and> m < k \<longrightarrow>
             (\<exists>vs. paramPermutations (jobParams j ! m) = Some (Inr vs) \<and> vs \<noteq> []))"
proof (induction "length (jobParams j) - i" arbitrary: i ts cur)
  case 0
  then show ?case by simp
next
  case (Suc d)
  show ?case
  proof (cases "paramPermutations (jobParams j ! i)")
    case None
    then show ?thesis using Suc.prems by (simp add: nextTask.simps)
  next
    case (Some r)
    show ?thesis
    proof (cases r)
      case (Inl e')
      then have "paramPermutations (jobParams j ! i) = Some (Inl e)"
        using Some Suc.prems by (simp add: nextTask.simps)
      then show ?thesis using Suc.prems(1) by (intro exI[of _ i]) auto
    next
      case (Inr params)
      then have loop: "nextTask_loop j i params ts cur = Some (Inl e)"
        using Some Suc.prems by (simp add: nextTask.simps)
      then have ne: "params \<noteq> []" by (cases params) auto
      from nextTask_loop_error[OF loop] obtain c where
        nl: "i + 1 \<noteq> length (jobParams j)" and nx: "nextTask j (i + 1) [] c = Some (Inl e)"
        by blast
      have l: "i + 1 < length (jobParams j)" using nl Suc.prems(1) by simp
      have d: "d = length (jobParams j) - (i + 1)" using Suc.hyps(2) by simp
      from Suc.hyps(1)[OF d l nx] obtain k where
        k: "i + 1 \<le> k" "k < length (jobParams j)"
           "paramPermutations (jobParams j ! k) = Some (Inl e)"
           "\<forall>m. i + 1 \<le> m \<and> m < k \<longrightarrow>
              (\<exists>vs. paramPermutations (jobParams j ! m) = Some (Inr vs) \<and> vs \<noteq> [])"
        by blast
      have "\<forall>m. i \<le> m \<and> m < k \<longrightarrow>
              (\<exists>vs. paramPermutations (jobParams j ! m) = Some (Inr vs) \<and> vs \<noteq> [])"
      proof (intro allI impI)
        fix m assume m: "i \<le> m \<and> m < k"
        show "\<exists>vs. paramPermutations (jobParams j ! m) = Some (Inr vs) \<and> vs \<noteq> []"
        proof (cases "m = i")
          case True
          then show ?thesis using Some Inr ne by simp
        next
          case False
          then show ?thesis using m k(4) by simp
        qed
      qed
      then show ?thesis using k(1,2,3) by (intro exI[of _ k]) auto
    qed
  qed
qed

lemma nextTask_reaches_error:
  "paramPermutations (jobParams j ! k) = Some (Inl e) \<Longrightarrow> k < length (jobParams j) \<Longrightarrow> i \<le> k
   \<Longrightarrow> (\<forall>m. i \<le> m \<and> m < k \<longrightarrow>
          (\<exists>vs. paramPermutations (jobParams j ! m) = Some (Inr vs) \<and> vs \<noteq> []))
   \<Longrightarrow> nextTask j i ts cur = Some (Inl e)"
proof (induction "k - i" arbitrary: i ts cur)
  case 0
  then show ?case by (simp add: nextTask.simps)
next
  case (Suc d)
  then have lt: "i < k" by simp
  then obtain vs where vs: "paramPermutations (jobParams j ! i) = Some (Inr vs)" "vs \<noteq> []"
    using Suc.prems(4) by blast
  then obtain v rest where c: "vs = v # rest" by (cases vs) auto
  have nx: "nextTask j (i + 1) [] (replaceLast cur v) = Some (Inl e)"
    by (rule Suc.hyps(1)) (use Suc.hyps(2) Suc.prems lt in auto)
  show ?case using vs(1) c nx lt Suc.prems(2) by (simp add: nextTask.simps)
qed

section \<open>The claims on the expansion\<close>

text \<open>
  C1, as stated: for every job whose declarations each yield values, the tasks come in
  the order of the cartesian product, the last declaration varying fastest, and the
  assignment of every task has one triple per declaration, in order.  Two adjacent
  declarations of one name break the second part: the value of the second takes the
  place of the value of the first, and the assignment ends with a zero triple.  A
  document without declarations makes \<^verbatim>\<open>nextTask\<close> read \<^verbatim>\<open>j.Params[0]\<close>, which panics.
\<close>

theorem tasks_shared_name_no_declaration:
  "tasks (jobOf [onlyDecl ''x'' ''integer'' [''1''], onlyDecl ''x'' ''integer'' [''2'']] []) =
     Some (Inr [taskOf [tparam ''x'' ''integer'' ''2'', zeroTaskParam] []])
   \<and> tasks (jobOf [] []) = Some (Inl (PanicIndexOutOfRange 0 0))"
  by (simp add: eval_tasks eval_decl)

text \<open>
  C1, amended: for every job with at least one declaration, no two adjacent declarations
  of one name, and declarations that each yield a value list (\<open>vals\<close>, one list per
  declaration), \<^verbatim>\<open>tasks\<close> returns one task per element of the cartesian product
  \<open>product_lists vals\<close>, in its order: lexicographic by position, the last declaration
  varying fastest.  The assignment of every task has exactly one triple per declaration,
  in declaration order, with the name and the type of the declaration.  The witness is
  the example of the claim: \<open>x\<close> with \<^verbatim>\<open>only = [1, 2]\<close> and \<open>y\<close> with \<^verbatim>\<open>only = [10, 20]\<close>
  give \<open>(1, 10), (1, 20), (2, 10), (2, 20)\<close>.
\<close>

theorem tasks_cartesian_order:
  assumes "jobParams j \<noteq> []"
    and "distinct_adj (map jpName (jobParams j))"
    and "map paramPermutations (jobParams j) = map (\<lambda>vs. Some (Inr vs)) vals"
  shows "\<exists>ts. tasks j = Some (Inr ts) \<and> map taskParams ts = product_lists vals \<and>
           list_all (\<lambda>t. map tpName (taskParams t) = map jpName (jobParams j) \<and>
                         map tpType (taskParams t) = map jpType (jobParams j)) ts"
proof -
  let ?ts = "map (\<lambda>a. newTask j ([] @ a)) (product_lists (drop 0 vals))"
  have t: "tasks j = Some (Inr ([] @ ?ts))"
    unfolding tasks_def by (rule nextTask_product[OF assms(3,2)]) (use assms(1) in auto)
  have full: "\<And>a. a \<in> set (product_lists vals) \<Longrightarrow> taskParams (newTask j a) = a"
    using product_assignment[OF assms(3)] by (simp add: newTask_def copyParams_full)
  have p: "map taskParams ?ts = product_lists vals"
    using full by (simp add: o_def map_idI)
  have n: "list_all (\<lambda>t. map tpName (taskParams t) = map jpName (jobParams j) \<and>
                         map tpType (taskParams t) = map jpType (jobParams j)) ?ts"
    using full product_assignment[OF assms(3)] by (simp add: list_all_iff)
  from t p n show ?thesis by simp
qed

theorem tasks_cartesian_order_witness:
  "tasks (jobOf [onlyDecl ''x'' ''integer'' [''1'', ''2''],
                 onlyDecl ''y'' ''integer'' [''10'', ''20'']] []) =
     Some (Inr [taskOf [tparam ''x'' ''integer'' ''1'', tparam ''y'' ''integer'' ''10''] [],
                taskOf [tparam ''x'' ''integer'' ''1'', tparam ''y'' ''integer'' ''20''] [],
                taskOf [tparam ''x'' ''integer'' ''2'', tparam ''y'' ''integer'' ''10''] [],
                taskOf [tparam ''x'' ''integer'' ''2'', tparam ''y'' ''integer'' ''20''] []])"
  using tasks_cartesian_order[of
      "jobOf [onlyDecl ''x'' ''integer'' [''1'', ''2''],
              onlyDecl ''y'' ''integer'' [''10'', ''20'']] []"
      "[[tparam ''x'' ''integer'' ''1'', tparam ''x'' ''integer'' ''2''],
        [tparam ''y'' ''integer'' ''10'', tparam ''y'' ''integer'' ''20'']]"]
  by (simp add: eval_tasks eval_decl)

lemma NewJob_parsed: "parsed env filePath job \<Longrightarrow> NewJob env filePath cfg = loadJob job cfg"
  by (auto simp: parsed_def NewJob_def split: sum.splits)

text \<open>
  C9, as stated: the expansion returns an error exactly when a declaration is invalid,
  that is an integer declaration with \<open>max < min\<close>, a bad step, an unknown step mode, or a
  type that is neither \<open>string\<close> nor \<open>integer\<close>.  The code accepts the type \<open>int\<close>, and
  it reads the bounds of an integer declaration only when there is no \<^verbatim>\<open>only\<close> list:
  both documents below are invalid for the claim and expand without error.
\<close>

theorem expansion_accepts_int_and_unread_bounds:
  "tasks (jobOf [onlyDecl ''x'' ''int'' [''1'']] []) =
     Some (Inr [taskOf [tparam ''x'' ''int'' ''1''] []])
   \<and> tasks (jobOf [(onlyDecl ''x'' ''integer'' [''7''])\<lparr>jpMin := ''5'', jpMax := ''1''\<rparr>] []) =
     Some (Inr [taskOf [tparam ''x'' ''integer'' ''7''] []])"
  by (simp add: eval_tasks eval_decl)

text \<open>
  C9, amended: for a document with at least one declaration the expansion returns an
  error, and so no tasks, exactly when it reaches an invalid declaration: some
  declaration \<open>k\<close> is invalid (\<open>decl_invalid\<close>: a type other than \<open>string\<close>, \<open>int\<close>,
  \<open>integer\<close>; or an integer declaration without \<^verbatim>\<open>only\<close> and with \<^verbatim>\<open>min\<close> whose bounds do
  not parse, or with \<open>max < min\<close>, or with a step that is given and is zero or does not
  parse, or with a step mode other than none, \<open>increment\<close>, \<open>power\<close>) and every
  declaration before \<open>k\<close> yields at least one value.  Then the load returns the same
  error, for the parsed document and for the file it was read from, and there is no job
  to start.
\<close>

theorem expansion_error_iff:
  assumes "jobParams j \<noteq> []"
  shows "((\<exists>e. tasks j = Some (Inl e)) \<longleftrightarrow>
          (\<exists>k<length (jobParams j). decl_invalid (jobParams j ! k) \<and>
             (\<forall>i<k. \<exists>vs. paramPermutations (jobParams j ! i) = Some (Inr vs) \<and> vs \<noteq> [])))
       \<and> (\<forall>e. tasks j = Some (Inl e) \<longrightarrow>
             loadJob j cfg = Some (Inl e) \<and>
             (\<forall>env filePath. parsed env filePath j \<longrightarrow> NewJob env filePath cfg = Some (Inl e)))"
proof -
  have n: "0 < length (jobParams j)" using assms by simp
  have a: "\<exists>k<length (jobParams j). decl_invalid (jobParams j ! k) \<and>
             (\<forall>i<k. \<exists>vs. paramPermutations (jobParams j ! i) = Some (Inr vs) \<and> vs \<noteq> [])"
    if "tasks j = Some (Inl e)" for e
  proof -
    from nextTask_error_reached[OF n that[unfolded tasks_def]] obtain k where
      k: "k < length (jobParams j)" "paramPermutations (jobParams j ! k) = Some (Inl e)"
         "\<forall>m. 0 \<le> m \<and> m < k \<longrightarrow>
            (\<exists>vs. paramPermutations (jobParams j ! m) = Some (Inr vs) \<and> vs \<noteq> [])"
      by blast
    have "decl_invalid (jobParams j ! k)"
      using k(2) paramPermutations_error_iff by blast
    then show ?thesis using k(1,3) by auto
  qed
  have b: "\<exists>e. tasks j = Some (Inl e)"
    if k: "k < length (jobParams j)" "decl_invalid (jobParams j ! k)"
       "\<forall>i<k. \<exists>vs. paramPermutations (jobParams j ! i) = Some (Inr vs) \<and> vs \<noteq> []" for k
  proof -
    obtain e where e: "paramPermutations (jobParams j ! k) = Some (Inl e)"
      using k(2) paramPermutations_error_iff by blast
    have "nextTask j 0 [] [] = Some (Inl e)"
      by (rule nextTask_reaches_error[OF e k(1)]) (use k(3) in auto)
    then show ?thesis by (auto simp: tasks_def)
  qed
  have c: "loadJob j cfg = Some (Inl e)" if "tasks j = Some (Inl e)" for e
    using that by (simp add: loadJob_def)
  show ?thesis using a b c NewJob_parsed by (auto simp del: not_ex)
qed

theorem expansion_error_iff_witness:
  "decl_invalid (rangeDecl ''y'' ''5'' ''1'' [] [])
   \<and> tasks (jobOf [onlyDecl ''x'' ''string'' [''a''], rangeDecl ''y'' ''5'' ''1'' [] []] []) =
       Some (Inl (ErrMinGreaterMax ''y'' 5 1))
   \<and> loadJob (jobOf [onlyDecl ''x'' ''string'' [''a''], rangeDecl ''y'' ''5'' ''1'' [] []] [])
       (pool [0]) = Some (Inl (ErrMinGreaterMax ''y'' 5 1))"
  using expansion_error_iff[of
      "jobOf [onlyDecl ''x'' ''string'' [''a''], rangeDecl ''y'' ''5'' ''1'' [] []] []" "pool [0]"]
  by (simp add: eval_tasks eval_decl eval_strconv decl_invalid_def loadJob_def)

section \<open>The check of the runs at load\<close>

lemma checkRuns_ok:
  "list_all (fitsPool n) (drop i rs)
   \<Longrightarrow> checkRuns n i rs = Inr (take i rs @ map normCores (drop i rs))"
proof (induction n i rs rule: checkRuns.induct)
  case (1 ncpus i rs)
  show ?case
  proof (cases "i < length rs")
    case False
    then show ?thesis by (simp add: checkRuns.simps[of ncpus i rs])
  next
    case True
    then have dr: "drop i rs = rs ! i # drop (Suc i) rs" by (simp add: Cons_nth_drop_Suc)
    have tk: "take (Suc i) rs = take i rs @ [rs ! i]"
      using True by (simp add: take_Suc_conv_app_nth)
    from "1.prems" dr
    have both: "fitsPool ncpus (rs ! i) \<and> list_all (fitsPool ncpus) (drop (Suc i) rs)"
      by simp
    then have rest: "list_all (fitsPool ncpus) (drop (Suc i) rs)" by simp
    from both have fit: "\<not> int ncpus < runCores (rs ! i)" unfolding fitsPool_def by simp
    show ?thesis
    proof (cases "runCores (rs ! i) = 0")
      case z: True
      let ?rs = "rs[i := (rs ! i)\<lparr>runCores := 1\<rparr>]"
      have "checkRuns ncpus (i + 1) ?rs =
          Inr (take (i + 1) ?rs @ map normCores (drop (i + 1) ?rs))"
        using "1.IH"(1)[OF True fit z] rest by simp
      then show ?thesis using True fit z dr tk
        by (simp add: checkRuns.simps[of ncpus i rs] normCores_def take_Suc_conv_app_nth)
    next
      case nz: False
      have "checkRuns ncpus (i + 1) rs =
          Inr (take (i + 1) rs @ map normCores (drop (i + 1) rs))"
        using "1.IH"(2)[OF True fit nz] rest by simp
      then show ?thesis using True fit nz dr tk
        by (simp add: checkRuns.simps[of ncpus i rs] normCores_def)
    qed
  qed
qed

lemma checkRuns_too_many:
  "\<not> list_all (fitsPool n) (drop i rs)
   \<Longrightarrow> \<exists>nm c. checkRuns n i rs = Inl (ErrTooManyCores nm c n)"
proof (induction n i rs rule: checkRuns.induct)
  case (1 ncpus i rs)
  show ?case
  proof (cases "i < length rs")
    case False
    then show ?thesis using "1.prems" by simp
  next
    case True
    then have dr: "drop i rs = rs ! i # drop (Suc i) rs" by (simp add: Cons_nth_drop_Suc)
    show ?thesis
    proof (cases "int ncpus < runCores (rs ! i)")
      case big: True
      then show ?thesis using True by (simp add: checkRuns.simps[of ncpus i rs])
    next
      case fit: False
      then have "fitsPool ncpus (rs ! i)" unfolding fitsPool_def by simp
      then have rest: "\<not> list_all (fitsPool ncpus) (drop (Suc i) rs)"
        using "1.prems" dr by simp
      show ?thesis
      proof (cases "runCores (rs ! i) = 0")
        case z: True
        show ?thesis using "1.IH"(1)[OF True fit z] rest True fit z
          by (simp add: checkRuns.simps[of ncpus i rs])
      next
        case nz: False
        show ?thesis using "1.IH"(2)[OF True fit nz] rest True fit nz
          by (simp add: checkRuns.simps[of ncpus i rs])
      qed
    qed
  qed
qed

lemma normCores_fits: "0 < n \<Longrightarrow> fitsPool n r \<Longrightarrow> fitsPool n (normCores r)"
  by (auto simp: normCores_def fitsPool_def)

lemma normCores_idem: "normCores (normCores r) = normCores r"
  by (simp add: normCores_def)

lemma normCores_nonzero: "runCores (normCores r) \<noteq> 0"
  by (simp add: normCores_def)

text \<open>
  With a pool that is not empty and runs that fit, the loop over the tasks rewrites the
  runs at its first task and leaves them as they are at the others.
\<close>

lemma tasksLoop_ok:
  "0 < n \<Longrightarrow> list_all (fitsPool n) (jobRuns job)
   \<Longrightarrow> ts \<noteq> [] \<or> jobRuns job = map normCores (jobRuns job)
   \<Longrightarrow> tasksLoop n ts job =
     Inr (job\<lparr>jobRuns := map normCores (jobRuns job),
              waitList := waitList job @ map (\<lambda>t. Init t (map normCores (jobRuns job))) ts\<rparr>)"
proof (induction ts arbitrary: job)
  case Nil
  then show ?case by simp
next
  case (Cons t ts)
  let ?rs = "map normCores (jobRuns job)"
  have c: "checkRuns n 0 (jobRuns job) = Inr ?rs"
    using checkRuns_ok[of n 0 "jobRuns job"] Cons.prems(2) by simp
  let ?job = "job\<lparr>jobRuns := ?rs, waitList := waitList job @ [Init t ?rs]\<rparr>"
  have f: "list_all (fitsPool n) (jobRuns ?job)"
    using Cons.prems(1,2) normCores_fits by (auto simp: list_all_iff)
  have i: "jobRuns ?job = map normCores (jobRuns ?job)" by (simp add: normCores_idem o_def)
  have "tasksLoop n ts ?job =
      Inr (?job\<lparr>jobRuns := map normCores (jobRuns ?job),
                waitList := waitList ?job @
                  map (\<lambda>t. Init t (map normCores (jobRuns ?job))) ts\<rparr>)"
    by (rule Cons.IH[OF Cons.prems(1) f]) (use i in simp)
  then show ?case using c by (simp add: normCores_idem o_def)
qed

lemma tasksLoop_too_many:
  "\<not> list_all (fitsPool n) (jobRuns job) \<Longrightarrow> ts \<noteq> []
   \<Longrightarrow> \<exists>nm c. tasksLoop n ts job = Inl (ErrTooManyCores nm c n)"
  using checkRuns_too_many[of n 0 "jobRuns job"] by (cases ts) auto

lemma loadJob_ok:
  assumes "tasks job = Some (Inr ts)" "ts \<noteq> []" "Cpus cfg \<noteq> []"
    "list_all (fitsPool (length (Cpus cfg))) (jobRuns job)"
  shows "loadJob job cfg =
     Some (Inr (job\<lparr>jobRuns := map normCores (jobRuns job),
                    waitList := map (\<lambda>t. Init t (map normCores (jobRuns job))) ts,
                    scheduleGrace := ScheduleGrace cfg\<rparr>, NewCoreMap (Cpus cfg)))"
  using assms
    tasksLoop_ok[of "length (Cpus cfg)" "job\<lparr>waitList := [], scheduleGrace := ScheduleGrace cfg\<rparr>" ts]
  by (simp add: loadJob_def)

lemma loadJob_too_many:
  assumes "tasks job = Some (Inr ts)" "ts \<noteq> []"
    "\<not> list_all (fitsPool (length (Cpus cfg))) (jobRuns job)"
  shows "\<exists>nm c. loadJob job cfg = Some (Inl (ErrTooManyCores nm c (length (Cpus cfg))))"
  using assms
    tasksLoop_too_many[of "length (Cpus cfg)"
      "job\<lparr>waitList := [], scheduleGrace := ScheduleGrace cfg\<rparr>" ts]
  by (auto simp: loadJob_def)

lemma loadJob_queues_fit:
  assumes "Cpus cfg \<noteq> []" "loadJob job cfg = Some (Inr (job', cm))"
  shows "list_all (\<lambda>t. list_all (fitsPool (length (Cpus cfg))) (runs t)) (waitList job')"
proof -
  obtain ts where ts: "tasks job = Some (Inr ts)"
    using assms(2) by (auto simp: loadJob_def split: option.splits sum.splits)
  show ?thesis
  proof (cases "ts = []")
    case True
    then show ?thesis using assms(2) ts by (auto simp: loadJob_def)
  next
    case False
    have fit: "list_all (fitsPool (length (Cpus cfg))) (jobRuns job)"
      using loadJob_too_many[OF ts False, of cfg] assms(2) by auto
    have "list_all (fitsPool (length (Cpus cfg))) (map normCores (jobRuns job))"
      using fit assms(1) normCores_fits by (auto simp: list_all_iff)
    then show ?thesis
      using loadJob_ok[OF ts False assms(1) fit] assms(2)
      by (auto simp: list_all_iff Init_def)
  qed
qed

lemmas eval_load = loadJob_def checkRuns.simps Init_def stage_def pool_def

section \<open>The claim on the load\<close>

text \<open>
  C8, as stated: for every document and pool the load rewrites every stage with no
  cores to one core, fails when a stage asks for more cores than the pool has, and
  leaves only stages that fit the pool in the queues.  The check sits inside the loop
  over the tasks.  A document whose expansion is empty (here a string parameter without
  values) loads with its runs untouched: a stage with no cores and a stage with five
  cores on a pool of one.  With an empty pool and a single task, a stage with no
  cores passes the check, is rewritten to one core and is queued, although the pool
  has none.
\<close>

theorem load_without_tasks_or_cores:
  "loadJob (jobOf [onlyDecl ''x'' ''string'' []] [stage ''A'' 0, stage ''B'' 5]) (pool [0]) =
     Some (Inr (jobOf [onlyDecl ''x'' ''string'' []] [stage ''A'' 0, stage ''B'' 5],
                NewCoreMap [0]))
   \<and> loadJob (jobOf [onlyDecl ''x'' ''string'' [''a'']] [stage ''A'' 0]) (pool []) =
     Some (Inr ((jobOf [onlyDecl ''x'' ''string'' [''a'']] [stage ''A'' 1])
                  \<lparr>waitList := [taskOf [tparam ''x'' ''string'' ''a''] [stage ''A'' 1]]\<rparr>,
                NewCoreMap []))"
  by (simp add: eval_load eval_tasks eval_decl)

text \<open>
  C8, amended: for every document that parses and expands to at least one task, and
  every pool that is not empty: if every stage asks for at most as many cores as the
  pool has, \<^verbatim>\<open>NewJob\<close> succeeds, the runs of the job are the runs of the document with
  every \<open>cores = 0\<close> rewritten to \<open>cores = 1\<close>, and every task, in the order of the
  expansion, is queued with exactly these runs; otherwise \<^verbatim>\<open>NewJob\<close> fails with the
  too-many-cores error.  After a successful load on a pool that is not empty, every
  stage in the queue of every task of the wait list fits the pool.
\<close>

theorem load_checks_runs:
  assumes "parsed env filePath job" and "Cpus cfg \<noteq> []"
  shows "(\<forall>ts. tasks job = Some (Inr ts) \<and> ts \<noteq> [] \<longrightarrow>
            (if list_all (\<lambda>r. runCores r \<le> int (length (Cpus cfg))) (jobRuns job)
             then \<exists>job'. NewJob env filePath cfg = Some (Inr (job', NewCoreMap (Cpus cfg))) \<and>
                    jobRuns job' =
                      map (\<lambda>r. if runCores r = 0 then r\<lparr>runCores := 1\<rparr> else r) (jobRuns job) \<and>
                    waitList job' = map (\<lambda>t. t\<lparr>runs := jobRuns job'\<rparr>) ts
             else \<exists>nm c. NewJob env filePath cfg =
                    Some (Inl (ErrTooManyCores nm c (length (Cpus cfg))))))
       \<and> (\<forall>job' cm. NewJob env filePath cfg = Some (Inr (job', cm)) \<longrightarrow>
            list_all (\<lambda>t. list_all (\<lambda>r. runCores r \<le> int (length (Cpus cfg))) (runs t))
              (waitList job'))"
proof -
  have nj: "NewJob env filePath cfg = loadJob job cfg"
    using assms(1) by (rule NewJob_parsed)
  have fp: "fitsPool (length (Cpus cfg)) = (\<lambda>r. runCores r \<le> int (length (Cpus cfg)))"
    by (rule ext) (simp add: fitsPool_def)
  have nc: "normCores = (\<lambda>r. if runCores r = 0 then r\<lparr>runCores := 1\<rparr> else r)"
    by (rule ext) (simp add: normCores_def)
  have a: "\<exists>job'. loadJob job cfg = Some (Inr (job', NewCoreMap (Cpus cfg))) \<and>
             jobRuns job' = map normCores (jobRuns job) \<and>
             waitList job' = map (\<lambda>t. t\<lparr>runs := jobRuns job'\<rparr>) ts"
    if "tasks job = Some (Inr ts)" "ts \<noteq> []"
       "list_all (fitsPool (length (Cpus cfg))) (jobRuns job)" for ts
    using loadJob_ok[OF that(1,2) assms(2) that(3)] by (simp add: Init_def)
  have b: "\<exists>nm c. loadJob job cfg = Some (Inl (ErrTooManyCores nm c (length (Cpus cfg))))"
    if "tasks job = Some (Inr ts)" "ts \<noteq> []"
       "\<not> list_all (fitsPool (length (Cpus cfg))) (jobRuns job)" for ts
    using loadJob_too_many[OF that] .
  have c: "list_all (\<lambda>t. list_all (fitsPool (length (Cpus cfg))) (runs t)) (waitList job')"
    if "loadJob job cfg = Some (Inr (job', cm))" for job' cm
    using loadJob_queues_fit[OF assms(2) that] .
  show ?thesis
    unfolding nj using a b c unfolding fp nc by (auto simp del: not_ex)
qed

theorem load_checks_runs_witness:
  "NewJob \<lparr>fileExists = (\<lambda>p. True), readFile = (\<lambda>p. Inr ''runs: ...''),
           unmarshal = (\<lambda>d. Inr (jobOf [onlyDecl ''x'' ''string'' [''a'']]
                                  [stage ''A'' 0, stage ''B'' 2]))\<rparr>
      ''job.yaml'' (pool [0, 1]) =
     Some (Inr ((jobOf [onlyDecl ''x'' ''string'' [''a'']] [stage ''A'' 1, stage ''B'' 2])
                  \<lparr>waitList := [taskOf [tparam ''x'' ''string'' ''a'']
                                  [stage ''A'' 1, stage ''B'' 2]]\<rparr>,
                NewCoreMap [0, 1]))"
  using load_checks_runs[of
      "\<lparr>fileExists = (\<lambda>p. True), readFile = (\<lambda>p. Inr ''runs: ...''),
        unmarshal = (\<lambda>d. Inr (jobOf [onlyDecl ''x'' ''string'' [''a'']]
                               [stage ''A'' 0, stage ''B'' 2]))\<rparr>"
      "''job.yaml''"
      "jobOf [onlyDecl ''x'' ''string'' [''a'']] [stage ''A'' 0, stage ''B'' 2]"
      "pool [0, 1]"]
  by (simp add: NewJob_def parsed_def eval_load eval_tasks eval_decl)

section \<open>The claim on the identity of a task\<close>

lemma hexString_lower: "list_all (\<lambda>c. c \<in> set ''0123456789abcdef'') (hexString bs)"
proof -
  define S where "S = set ''0123456789abcdef''"
  have d: "hexDigit n \<in> S" if "n < 16" for n
  proof -
    have "hexDigit n = ''0123456789abcdef'' ! n" by (simp add: hexDigit_def)
    moreover have "n < length ''0123456789abcdef''" using that by simp
    ultimately show ?thesis unfolding S_def by (metis nth_mem)
  qed
  have hi: "(of_char b :: nat) div 16 < 16" for b
    using nat_of_char_less_256[of b] by (simp add: less_mult_imp_div_less)
  have "list_all (\<lambda>c. c \<in> S) (hexString bs)"
    by (induction bs) (simp_all add: hexString_def d hi)
  then show ?thesis unfolding S_def .
qed

lemma hexString_length: "length (hexString bs) = 2 * length bs"
  by (induction bs) (simp_all add: hexString_def)

lemma paramLine_of_pair:
  "map paramLine ps =
     map (\<lambda>(n, v). n @ ''='' @ v @ [CHR 0x0A]) (map (\<lambda>p. (tpName p, tpValue p)) ps)"
  by (simp add: paramLine_def o_def)

lemma paramLine_pairs:
  assumes "map (\<lambda>p. (tpName p, tpValue p)) ps = map (\<lambda>p. (tpName p, tpValue p)) qs"
  shows "map paramLine ps = map paramLine qs"
  by (simp only: paramLine_of_pair assms)

text \<open>
  C4.  For every task whose stored uuid is consistent (\<open>cacheOk\<close>: still empty, or the
  digest of its parameters; the field is private, empty in every task of the wait
  list by \<open>loadJob_cacheOk\<close>, written by \<^verbatim>\<open>UUID\<close> only, and consistent in every state of the
  scheduler by \<open>cacheOk_exec\<close>), \<^verbatim>\<open>UUID\<close> returns the hexadecimal digest, in lower case,
  of the hash of the lines \<open>name=value\<close>, each ended by a line feed, of its parameters in
  their order; it leaves the parameters as they are and the stored uuid consistent; and
  a task with the same pairs of name and value in the same order has the same uuid.
  The hash \<open>md5\<close> is the one of Go's library, any function here.
\<close>

theorem UUID_digest:
  assumes "cacheOk md5 t"
  shows "fst (UUID md5 t) =
           hexString (md5 (concat (map (\<lambda>p. tpName p @ ''='' @ tpValue p @ [CHR 0x0A])
                                       (taskParams t))))
       \<and> list_all (\<lambda>c. c \<in> set ''0123456789abcdef'') (fst (UUID md5 t))
       \<and> taskParams (snd (UUID md5 t)) = taskParams t
       \<and> cacheOk md5 (snd (UUID md5 t))
       \<and> (\<forall>t'. cacheOk md5 t' \<and>
                map (\<lambda>p. (tpName p, tpValue p)) (taskParams t') =
                map (\<lambda>p. (tpName p, tpValue p)) (taskParams t)
              \<longrightarrow> fst (UUID md5 t') = fst (UUID md5 t))"
proof -
  have pl: "paramLine = (\<lambda>p. tpName p @ ''='' @ tpValue p @ [CHR 0x0A])"
    by (rule ext) (simp add: paramLine_def)
  have d: "fst (UUID md5 u) = hexString (md5 (concat (map paramLine (taskParams u))))"
    if "cacheOk md5 u" for u
    using that by (auto simp: cacheOk_def UUID_def Let_def)
  have 1: "fst (UUID md5 t) = hexString (md5 (concat (map paramLine (taskParams t))))"
    using d[OF assms] .
  have 2: "list_all (\<lambda>c. c \<in> set ''0123456789abcdef'') (fst (UUID md5 t))"
    unfolding 1 by (rule hexString_lower)
  have 3: "taskParams (snd (UUID md5 t)) = taskParams t"
    by (simp add: UUID_def Let_def)
  have 4: "cacheOk md5 (snd (UUID md5 t))"
    using assms by (auto simp: cacheOk_def UUID_def Let_def)
  have 5: "fst (UUID md5 t') = fst (UUID md5 t)"
    if "cacheOk md5 t'"
       "map (\<lambda>p. (tpName p, tpValue p)) (taskParams t') =
        map (\<lambda>p. (tpName p, tpValue p)) (taskParams t)" for t'
    using d[OF that(1)] 1 paramLine_pairs[OF that(2)] by simp
  have 6: "\<forall>t'. cacheOk md5 t' \<and>
                map (\<lambda>p. (tpName p, tpValue p)) (taskParams t') =
                map (\<lambda>p. (tpName p, tpValue p)) (taskParams t)
              \<longrightarrow> fst (UUID md5 t') = fst (UUID md5 t)"
    using 5 by (intro allI impI) (elim conjE)
  from 1[unfolded pl] 2 3 4 6 show ?thesis by (intro conjI)
qed

theorem UUID_digest_witness:
  "fst (UUID (\<lambda>bs. bs) (taskOf [tparam ''x'' ''integer'' ''1'', tparam ''y'' ''integer'' ''10''] []))
     = ''783d310a793d31300a''"
proof -
  have "cacheOk (\<lambda>bs. bs) (taskOf [tparam ''x'' ''integer'' ''1'', tparam ''y'' ''integer'' ''10''] [])"
    by (simp add: cacheOk_def taskOf_def)
  from UUID_digest[OF this]
  have "fst (UUID (\<lambda>bs. bs) (taskOf [tparam ''x'' ''integer'' ''1'', tparam ''y'' ''integer'' ''10''] [])) =
      hexString (concat (map (\<lambda>p. tpName p @ ''='' @ tpValue p @ [CHR 0x0A])
        (taskParams (taskOf [tparam ''x'' ''integer'' ''1'', tparam ''y'' ''integer'' ''10''] []))))"
    by (rule conjunct1)
  then show ?thesis
    by (simp add: taskOf_def tparam_def hexString_def hexDigit_def)
qed

section \<open>The scheduler\<close>

lemmas eval_sched = exec_def driver_def stepLoopHead_def stepFetch_def stepExclusion_def
  stepSelect_def stepSetCores_def stepSpawn_def stepIterator_def stepWaitGroup_def stepSup_def
  FreeCores_def All_def Set_core_def Unset_def NewCoreMap_def UUID_at_def UUID_def Cancel_def
  initState_def Let_def

lemmas eval_inputs = twoStageDoc_def twoStageJob_def oneStageJob_def jobOf_def taskOf_def
  stage_def tparam_def

text \<open>Asked twice for one task, \<^verbatim>\<open>UUID\<close> answers the same.\<close>

lemma UUID_twice: "fst (UUID md5 (snd (UUID md5 t))) = fst (UUID md5 t)"
  by (simp add: UUID_def Let_def)

lemma UUID_at_twice: "fst (UUID_at md5 (snd (UUID_at md5 st t)) t) = fst (UUID_at md5 st t)"
  by (cases "t < length st") (simp_all add: UUID_at_def UUID_twice list_update_beyond)

text \<open>A scan that finds nothing has seen no run of the task.\<close>

lemma exclusionScan_clear:
  "exclusionScan md5 st t es = (False, st') \<Longrightarrow> Some a \<in> set es \<Longrightarrow> atrTask a \<noteq> t"
proof (induction md5 st t es rule: exclusionScan.induct)
  case (1 md5 st t)
  then show ?case by simp
next
  case (2 md5 st t es)
  then show ?case by simp
next
  case (3 md5 st t atr es)
  obtain u1 st1 where a1: "UUID_at md5 st (atrTask atr) = (u1, st1)"
    by (cases "UUID_at md5 st (atrTask atr)")
  obtain u2 st2 where a2: "UUID_at md5 st1 t = (u2, st2)"
    by (cases "UUID_at md5 st1 t")
  have same: "atrTask atr = t \<Longrightarrow> u1 = u2"
    using UUID_at_twice[of md5 st t] a1 a2 by simp
  from "3.prems"(1) a1 a2
  have ne: "u1 \<noteq> u2" and rest: "exclusionScan md5 st2 t es = (False, st')"
    by (auto split: if_splits)
  show ?case
  proof (cases "a = atr")
    case True
    then show ?thesis using same ne by auto
  next
    case False
    then have "Some a \<in> set es" using "3.prems"(2) by simp
    then show ?thesis using "3.IH"[OF a1[symmetric] refl a2[symmetric] refl ne rest] by simp
  qed
qed

text \<open>Every step of the driver keeps the invariant.\<close>

lemma Inv_LoopHead: "Inv s \<Longrightarrow> pc s = LoopHead \<Longrightarrow> Inv (stepLoopHead s)"
  by (auto simp: Inv_def stepLoopHead_def pcInv_def Let_def)

lemma Inv_Fetch: "Inv s \<Longrightarrow> Inv (stepFetch fc s)"
  by (auto simp: Inv_def stepFetch_def pcInv_def Let_def split: list.splits)

lemma Inv_Exclusion:
  assumes "Inv s"
  shows "Inv (stepExclusion md5 fc t r s)"
proof -
  obtain found st where sc: "exclusionScan md5 (store s) t (All (coreMap s)) = (found, st)"
    by (cases "exclusionScan md5 (store s) t (All (coreMap s))")
  show ?thesis
  proof (cases found)
    case True
    then show ?thesis using assms sc by (simp add: Inv_def stepExclusion_def pcInv_def)
  next
    case False
    have "noRunOf t (coreMap s)"
      unfolding noRunOf_def
    proof (intro allI impI)
      fix c a assume ca: "cmAt (coreMap s) c = Some a"
      then have "c \<in> set (cmIds (coreMap s))"
        using assms by (auto simp: Inv_def keysConfigured_def)
      then have "Some a \<in> set (All (coreMap s))" using ca by (force simp: All_def)
      then show "atrTask a \<noteq> t"
        using exclusionScan_clear[of md5 "store s" t "All (coreMap s)" st a] sc False by simp
    qed
    then show ?thesis using assms sc False by (simp add: Inv_def stepExclusion_def pcInv_def)
  qed
qed

lemma Inv_Select: "Inv s \<Longrightarrow> pc s = Select fc t r \<Longrightarrow> Inv (stepSelect md5 ok fc t r s)"
  by (auto simp: Inv_def stepSelect_def pcInv_def Let_def noRunOf_def onlyRun_def)

lemma Inv_SetCores:
  "Inv s \<Longrightarrow> pc s = SetCores atr cores j t \<Longrightarrow> Inv (stepSetCores atr cores j t s)"
  by (auto simp: Inv_def stepSetCores_def pcInv_def Let_def onlyRun_def oneRunPerTask_def
      keysConfigured_def Set_core_def split: option.splits if_splits)

lemma Inv_Spawn: "Inv s \<Longrightarrow> Inv (stepSpawn atr t s)"
  by (auto simp: Inv_def stepSpawn_def pcInv_def)

lemma Inv_Iterator: "Inv s \<Longrightarrow> Inv (stepIterator t s)"
  by (auto simp: Inv_def stepIterator_def pcInv_def Let_def)

lemma Inv_WaitGroup: "Inv s \<Longrightarrow> pc s = WaitGroup \<Longrightarrow> Inv (stepWaitGroup s)"
  by (auto simp: Inv_def stepWaitGroup_def pcInv_def)

lemma Inv_driver: "Inv s \<Longrightarrow> Inv (driver md5 ok s)"
  unfolding driver_def
  by (cases "pc s")
     (simp_all add: Inv_LoopHead Inv_Fetch Inv_Exclusion Inv_Select Inv_SetCores Inv_Spawn
        Inv_Iterator Inv_WaitGroup)

text \<open>A supervisor only vacates cores, which keeps the invariant at every position.\<close>

lemma pcInv_Unset: "pcInv p cm \<Longrightarrow> pcInv p (Unset cm c)"
  by (auto simp: pcInv_def noRunOf_def onlyRun_def Unset_def split: Pc.splits)

lemma Inv_Unset: "Inv s \<Longrightarrow> Inv (s\<lparr>coreMap := Unset (coreMap s) c, sups := g\<rparr>)"
  using pcInv_Unset[of "pc s" "coreMap s" c]
  by (auto simp: Inv_def oneRunPerTask_def keysConfigured_def Unset_def split: if_splits)

lemma Inv_stepSup: "Inv s \<Longrightarrow> Inv (stepSup k rc err s)"
  unfolding stepSup_def Let_def
  by (auto simp: Inv_Unset split: SupPc.splits list.splits) (auto simp: Inv_def)

lemma Inv_perform: "Inv s \<Longrightarrow> Inv (perform md5 s a)"
  by (cases a) (simp_all add: Inv_driver Inv_stepSup)

lemma Inv_exec: "Inv s \<Longrightarrow> Inv (exec md5 acts s)"
  unfolding exec_def by (induction acts arbitrary: s) (simp_all add: Inv_perform)

lemma Inv_init: "Inv (initState job (NewCoreMap cpus))"
  by (simp add: Inv_def initState_def NewCoreMap_def oneRunPerTask_def keysConfigured_def
      pcInv_def)

section \<open>The claims on the scheduler and the supervisors\<close>

text \<open>
  C2.  In every state that the driver and the supervisors reach from the state the load
  leaves (any job, any pool, any schedule, any outcome of the runs and of
  \<^verbatim>\<open>NewActiveTaskRun\<close>), two entries of the core map that carry the same task are the same
  run: at most one run of a task is in the map.  The exclusion test is what keeps it:
  the driver enters a run only after a scan that saw no run of the task, and between
  the scan and the last \<^verbatim>\<open>Set\<close> the supervisors only vacate cores.  The witness is a
  stage of two cores on a pool of two: both cores hold the one run.
\<close>

theorem one_run_per_task:
  "cmAt (coreMap (exec md5 acts (initState job (NewCoreMap cpus)))) c1 = Some a1
   \<Longrightarrow> cmAt (coreMap (exec md5 acts (initState job (NewCoreMap cpus)))) c2 = Some a2
   \<Longrightarrow> atrTask a1 = atrTask a2 \<Longrightarrow> a1 = a2"
  using Inv_exec[OF Inv_init, of md5 acts job cpus]
  unfolding Inv_def oneRunPerTask_def by blast

theorem one_run_per_task_witness:
  "cmAt (coreMap (exec (\<lambda>bs. bs)
          [Drive True, Drive True, Drive True, Drive True, Drive True, Drive True]
          (initState ((jobOf [] [])\<lparr>waitList := [taskOf [] [stage ''A'' 2]]\<rparr>)
             (NewCoreMap [0, 1])))) 0 =
     Some \<lparr>atrId = 0, atrTask = 0, atrRun = stage ''A'' 2, CoreIds = [1, 0]\<rparr>
   \<and> cmAt (coreMap (exec (\<lambda>bs. bs)
          [Drive True, Drive True, Drive True, Drive True, Drive True, Drive True]
          (initState ((jobOf [] [])\<lparr>waitList := [taskOf [] [stage ''A'' 2]]\<rparr>)
             (NewCoreMap [0, 1])))) 1 =
     Some \<lparr>atrId = 0, atrTask = 0, atrRun = stage ''A'' 2, CoreIds = [1, 0]\<rparr>"
  using one_run_per_task[of "\<lambda>bs. bs"
      "[Drive True, Drive True, Drive True, Drive True, Drive True, Drive True]"
      "(jobOf [] [])\<lparr>waitList := [taskOf [] [stage ''A'' 2]]\<rparr>" "[0, 1]"
      0 "\<lparr>atrId = 0, atrTask = 0, atrRun = stage ''A'' 2, CoreIds = [1, 0]\<rparr>"
      1 "\<lparr>atrId = 0, atrTask = 0, atrRun = stage ''A'' 2, CoreIds = [1, 0]\<rparr>"]
  by (simp add: eval_sched eval_inputs)

text \<open>
  C3.  The claim: after a run that failed, no further stage of its task is dispatched.
  The supervisor does cancel the task (the queue is empty after its first step below),
  but the driver dispatches the stage it peeked before the cancellation when its
  exclusion test comes after the supervisor has vacated the core: the log of dispatches
  ends with stage \<open>B\<close>, and a second supervisor runs it.
\<close>

theorem cancelled_task_dispatched_again:
  "loadJob twoStageDoc (pool [0, 1]) = Some (Inr (twoStageJob, NewCoreMap [0, 1]))
   \<and> runs (store (exec md5 (take 11 raceSchedule)
                    (initState twoStageJob (NewCoreMap [0, 1]))) ! 0) = []
   \<and> schedLog (exec md5 raceSchedule (initState twoStageJob (NewCoreMap [0, 1]))) =
       [(0, ''A''), (0, ''B'')]
   \<and> map (\<lambda>g. (runName (atrRun (supAtr g)), supPc g))
        (sups (exec md5 raceSchedule (initState twoStageJob (NewCoreMap [0, 1])))) =
       [(''A'', Release []), (''B'', Running)]"
proof -
  have 1: "loadJob twoStageDoc (pool [0, 1]) = Some (Inr (twoStageJob, NewCoreMap [0, 1]))"
    by (simp add: twoStageDoc_def twoStageJob_def eval_load eval_tasks eval_decl)
  have 2: "runs (store (exec md5 (take 11 raceSchedule)
                    (initState twoStageJob (NewCoreMap [0, 1]))) ! 0) = []"
    by (simp add: raceSchedule_def eval_sched eval_inputs)
  have 3: "schedLog (exec md5 raceSchedule (initState twoStageJob (NewCoreMap [0, 1]))) =
       [(0, ''A''), (0, ''B'')]"
    by (simp add: raceSchedule_def eval_sched eval_inputs)
  have 4: "map (\<lambda>g. (runName (atrRun (supAtr g)), supPc g))
        (sups (exec md5 raceSchedule (initState twoStageJob (NewCoreMap [0, 1])))) =
       [(''A'', Release []), (''B'', Running)]"
    by (simp add: raceSchedule_def eval_sched eval_inputs)
  from 1 2 3 4 show ?thesis by (intro conjI)
qed

text \<open>
  C10.  The claim: a supervisor vacates its cores before it signals the wait group.
  The goroutine of the source calls \<^verbatim>\<open>wg.Done()\<close> first and \<^verbatim>\<open>Unset\<close> after it: below the
  run ended with exit code 0, the wait group is at zero and \<^verbatim>\<open>Start\<close> has returned, while
  core 0 still holds the run and its supervisor has yet to vacate it.
\<close>

theorem signal_before_release:
  "wg (exec md5 earlySignalSchedule (initState oneStageJob (NewCoreMap [0]))) = 0
   \<and> pc (exec md5 earlySignalSchedule (initState oneStageJob (NewCoreMap [0]))) = Returned
   \<and> cmAt (coreMap (exec md5 earlySignalSchedule (initState oneStageJob (NewCoreMap [0])))) 0 =
       Some \<lparr>atrId = 0, atrTask = 0, atrRun = stage ''A'' 1, CoreIds = [0]\<rparr>
   \<and> map supPc (sups (exec md5 earlySignalSchedule (initState oneStageJob (NewCoreMap [0])))) =
       [Release [0]]"
  by (simp add: earlySignalSchedule_def eval_sched eval_inputs)

section \<open>Further facts: the stored uuid, and the cancellation\<close>

text \<open>Every task that the expansion makes, and so every task of the wait list, has no uuid yet.\<close>

lemma nextTask_uuid_unset:
  "(\<forall>r. nextTask j i ts cur = Some (Inr r) \<longrightarrow> list_all (\<lambda>t. uuid t = []) ts
        \<longrightarrow> list_all (\<lambda>t. uuid t = []) r)"
  "(\<forall>r. nextTask_loop j i params ts cur = Some (Inr r) \<longrightarrow> list_all (\<lambda>t. uuid t = []) ts
        \<longrightarrow> list_all (\<lambda>t. uuid t = []) r)"
proof (induction j i ts cur and j i params ts cur rule: nextTask_nextTask_loop.induct)
  case (1 j i tasks cur)
  then show ?case
    by (auto simp: nextTask.simps[of j i tasks cur] split: if_splits option.splits sum.splits)
next
  case (2 j i tasks cur)
  then show ?case by simp
next
  case (3 j i param params tasks cur)
  show ?case
  proof (cases "i + 1 = length (jobParams j)")
    case True
    then show ?thesis using "3.IH"(1) by (auto simp: newTask_def)
  next
    case False
    show ?thesis
    proof (intro allI impI)
      fix r
      assume a: "nextTask_loop j i (param # params) tasks cur = Some (Inr r)"
        and u: "list_all (\<lambda>t. uuid t = []) tasks"
      from a False obtain nextTasks where
        n: "nextTask j (i + 1) [] (replaceLast cur param) = Some (Inr nextTasks)" and
        l: "nextTask_loop j i params (tasks @ nextTasks) (replaceLast cur param) = Some (Inr r)"
        by (auto split: option.splits sum.splits)
      have "list_all (\<lambda>t. uuid t = []) nextTasks"
        using "3.IH"(2)[OF False] n by simp
      then show "list_all (\<lambda>t. uuid t = []) r"
        using "3.IH"(3)[OF False n] l u by simp
    qed
  qed
qed

lemma tasks_uuid_unset: "tasks j = Some (Inr ts) \<Longrightarrow> list_all (\<lambda>t. uuid t = []) ts"
  using nextTask_uuid_unset(1)[of j 0 "[]" "[]"] by (simp add: tasks_def)

lemma tasksLoop_uuid_unset:
  "tasksLoop n ts job = Inr job' \<Longrightarrow> list_all (\<lambda>t. uuid t = []) ts
   \<Longrightarrow> list_all (\<lambda>t. uuid t = []) (waitList job)
   \<Longrightarrow> list_all (\<lambda>t. uuid t = []) (waitList job')"
proof (induction ts arbitrary: job)
  case Nil
  then show ?case by simp
next
  case (Cons t ts)
  then show ?case by (auto simp: Init_def split: sum.splits)
qed

lemma loadJob_cacheOk:
  assumes "loadJob job cfg = Some (Inr (job', cm))"
  shows "list_all (cacheOk md5) (store (initState job' cm))"
proof -
  obtain ts where ts: "tasks job = Some (Inr ts)"
    using assms by (auto simp: loadJob_def split: option.splits sum.splits)
  have "tasksLoop (length (Cpus cfg)) ts
      (job\<lparr>waitList := [], scheduleGrace := ScheduleGrace cfg\<rparr>) = Inr job'"
    using assms ts by (auto simp: loadJob_def split: sum.splits)
  then have "list_all (\<lambda>t. uuid t = []) (waitList job')"
    using tasksLoop_uuid_unset tasks_uuid_unset[OF ts] by fastforce
  then show ?thesis by (simp add: initState_def cacheOk_def list_all_iff)
qed

text \<open>The driver and the supervisors keep the stored uuid of every task consistent.\<close>

lemma cacheOk_update:
  "list_all (cacheOk md5) st \<Longrightarrow> (t < length st \<Longrightarrow> cacheOk md5 x)
   \<Longrightarrow> list_all (cacheOk md5) (st[t := x])"
  by (cases "t < length st") (auto simp: list_all_length nth_list_update list_update_beyond)

lemma cacheOk_UUID: "cacheOk md5 t \<Longrightarrow> cacheOk md5 (snd (UUID md5 t))"
  by (auto simp: cacheOk_def UUID_def Let_def)

lemma cacheOk_runs: "cacheOk md5 t \<Longrightarrow> cacheOk md5 (t\<lparr>runs := q\<rparr>)"
  by (simp add: cacheOk_def)

lemma cacheOk_UUID_at:
  "list_all (cacheOk md5) st \<Longrightarrow> list_all (cacheOk md5) (snd (UUID_at md5 st t))"
  unfolding UUID_at_def snd_conv
  by (rule cacheOk_update) (simp_all add: cacheOk_UUID list_all_length)

lemma cacheOk_exclusionScan:
  "list_all (cacheOk md5) st \<Longrightarrow> list_all (cacheOk md5) (snd (exclusionScan md5 st t es))"
proof (induction md5 st t es rule: exclusionScan.induct)
  case (1 md5 st t)
  then show ?case by simp
next
  case (2 md5 st t es)
  then show ?case by simp
next
  case (3 md5 st t atr es)
  obtain u1 st1 where a1: "UUID_at md5 st (atrTask atr) = (u1, st1)"
    by (cases "UUID_at md5 st (atrTask atr)")
  obtain u2 st2 where a2: "UUID_at md5 st1 t = (u2, st2)"
    by (cases "UUID_at md5 st1 t")
  have c1: "list_all (cacheOk md5) st1"
    using cacheOk_UUID_at[OF "3.prems", of "atrTask atr"] a1 by simp
  have c2: "list_all (cacheOk md5) st2"
    using cacheOk_UUID_at[OF c1, of t] a2 by simp
  show ?case
  proof (cases "u1 = u2")
    case True
    then show ?thesis using a1 a2 c2 by simp
  next
    case False
    then show ?thesis
      using "3.IH"[OF a1[symmetric] refl a2[symmetric] refl False c2] a1 a2 by simp
  qed
qed

lemma cacheOk_driver:
  assumes "list_all (cacheOk md5) (store s)"
  shows "list_all (cacheOk md5) (store (driver md5 ok s))"
proof (cases "pc s")
  case (Exclusion fc t r)
  then show ?thesis
    using cacheOk_exclusionScan[OF assms, of t "All (coreMap s)"]
    by (cases "exclusionScan md5 (store s) t (All (coreMap s))")
       (simp add: driver_def stepExclusion_def)
next
  case (Select fc t r)
  have 1: "list_all (cacheOk md5) (snd (UUID_at md5 (store s) t))"
    by (rule cacheOk_UUID_at[OF assms])
  have 2: "list_all (cacheOk md5)
      ((snd (UUID_at md5 (store s) t))
         [t := (snd (UUID_at md5 (store s) t) ! t)
                 \<lparr>runs := tl (runs (snd (UUID_at md5 (store s) t) ! t))\<rparr>])"
    by (rule cacheOk_update[OF 1]) (use 1 in \<open>simp add: list_all_length cacheOk_runs\<close>)
  have 3: "list_all (cacheOk md5) ((store s)[t := Cancel (store s ! t)])"
    by (rule cacheOk_update[OF assms])
       (use assms in \<open>simp add: list_all_length cacheOk_runs Cancel_def\<close>)
  show ?thesis using Select 2 3 by (simp add: driver_def stepSelect_def Let_def)
qed (use assms in \<open>auto simp: driver_def stepLoopHead_def stepFetch_def stepSetCores_def
      stepSpawn_def stepIterator_def stepWaitGroup_def Let_def split: list.splits option.splits\<close>)

lemma cacheOk_stepSup:
  assumes "list_all (cacheOk md5) (store s)"
  shows "list_all (cacheOk md5) (store (stepSup k rc err s))"
proof -
  have c: "list_all (cacheOk md5) ((store s)[t := Cancel (store s ! t)])" for t
    by (rule cacheOk_update[OF assms])
       (use assms in \<open>simp add: list_all_length cacheOk_runs Cancel_def\<close>)
  show ?thesis
    using assms c by (auto simp: stepSup_def Let_def split: SupPc.splits list.splits)
qed

lemma cacheOk_exec:
  "list_all (cacheOk md5) (store s) \<Longrightarrow> list_all (cacheOk md5) (store (exec md5 acts s))"
  unfolding exec_def
proof (induction acts arbitrary: s)
  case Nil
  then show ?case by simp
next
  case (Cons a acts)
  have "list_all (cacheOk md5) (store (perform md5 s a))"
    using Cons.prems by (cases a) (simp_all add: cacheOk_driver cacheOk_stepSup)
  then show ?case using Cons.IH by simp
qed

text \<open>
  The first step of a supervisor whose run failed leaves the queue of its task empty
  (\<^verbatim>\<open>Task.Cancel\<close>), and the next drain check of the driver for this task removes it
  from the wait list.
\<close>

lemma supervisor_cancels:
  assumes "k < length (sups s)" and "supPc (sups s ! k) = Running"
    and "err \<or> rc \<noteq> 0" and "supTask (sups s ! k) < length (store s)"
  shows "runs (store (stepSup k rc err s) ! supTask (sups s ! k)) = []"
  using assms by (auto simp: stepSup_def Let_def Cancel_def)

lemma drain_check_removes:
  assumes "runs (store s ! t) = []" and "0 \<le> cursor s" and "nat (cursor s) < length (wl s)"
  shows "wl (stepIterator t s) = take (nat (cursor s)) (wl s) @ drop (nat (cursor s) + 1) (wl s)"
  using assms by (simp add: stepIterator_def Let_def)

end
